theory Spec2Isabelle
  imports Main "HOL-Library.Word"
begin

unbundle bit_operations_syntax

section \<open>The epoll echo server of \<^verbatim>\<open>epoll-high-performance/server.cpp\<close>\<close>

text \<open>
  The server is a sequence of system calls whose answers come from the kernel.  The model
  keeps the kernel's side in a record \<open>world\<close>: the table of open descriptors with their
  file status flags, the interest list of the epoll instance, \<open>errno\<close>, and for every call
  that depends on the outside (the bytes that arrive, the room in the send buffer, the
  connections that are pending, the readiness reports) a script: the list of the answers
  the successive calls will get.  Every call is appended to \<open>trace\<close>, with its arguments
  and its answer.  A call on an empty script has no answer: the run stops there as
  \<open>OutOfScript\<close>, which is kept apart from a function that returns.
\<close>

subsection \<open>Constants\<close>

definition PORT :: int where "PORT = 9090"
definition MAX_EVENTS :: int where "MAX_EVENTS = 1024"
definition BUFFER_SIZE :: int where "BUFFER_SIZE = 4096"
definition THREAD_POOL_SIZE :: nat where "THREAD_POOL_SIZE = 4"

text \<open>The values of the Linux headers (epoll exists on Linux only).\<close>

definition ENOENT :: int where "ENOENT = 2"
definition EINTR :: int where "EINTR = 4"
definition EBADF :: int where "EBADF = 9"
definition EAGAIN :: int where "EAGAIN = 11"
definition EWOULDBLOCK :: int where "EWOULDBLOCK = 11"
definition ENOMEM :: int where "ENOMEM = 12"
definition EFAULT :: int where "EFAULT = 14"
definition EEXIST :: int where "EEXIST = 17"

definition O_RDWR :: nat where "O_RDWR = 2"
definition O_NONBLOCK :: int where "O_NONBLOCK = 2048"

definition EPOLLIN :: "32 word" where "EPOLLIN = 1"
definition EPOLLET :: "32 word" where "EPOLLET = push_bit 31 1"

subsection \<open>The kernel's answers and the record of calls\<close>

datatype read_result =
    RBytes "char list"  \<comment> \<open>the bytes waiting on the socket; none of them is end-of-stream\<close>
  | RFail int           \<comment> \<open>the call returns -1 with this \<open>errno\<close>\<close>

datatype accept_result =
    AcceptOk nat        \<comment> \<open>the descriptor of the new connection\<close>
  | AcceptFail int      \<comment> \<open>the call returns -1 with this \<open>errno\<close>\<close>

datatype wait_result =
    WaitReady "int list"  \<comment> \<open>the descriptors of the ready events\<close>
  | WaitFail int          \<comment> \<open>the call returns -1 with this \<open>errno\<close>\<close>

datatype epoll_op = EPOLL_CTL_ADD | EPOLL_CTL_DEL

datatype syscall =
    SysRead int read_result
  | SysWrite int "char list" int           \<comment> \<open>descriptor, the bytes offered, the return value\<close>
  | SysEpollCtl int epoll_op int "32 word option"
  | SysClose int
  | SysAccept int accept_result
  | SysEpollWait int wait_result
  | SysFcntlGetfl int int                  \<comment> \<open>descriptor, the return value\<close>
  | SysFcntlSetfl int int int              \<comment> \<open>descriptor, the flags passed, the return value\<close>
  | SysSocket int                          \<comment> \<open>the return value\<close>
  | SysSetsockopt int int                  \<comment> \<open>descriptor, the return value\<close>
  | SysBind int int int                    \<comment> \<open>descriptor, port, the return value\<close>
  | SysListen int int                      \<comment> \<open>descriptor, the return value\<close>
  | SysEpollCreate1 int                    \<comment> \<open>the return value\<close>
  | Perror string
  | Stdout string
  | Enqueue int int                        \<comment> \<open>the task \<open>handleClient(epoll_fd, fd)\<close>\<close>

record world =
  errno :: int
  fflags :: "int \<rightharpoonup> nat"              \<comment> \<open>open descriptors and their file status flags\<close>
  interest :: "int \<times> int \<rightharpoonup> 32 word"  \<comment> \<open>(epoll instance, descriptor) to its event mask\<close>
  epoll_nomem :: bool                  \<comment> \<open>the kernel has no room for one more registration\<close>
  reads :: "read_result list"
  writes :: "int list"                 \<comment> \<open>room in the send buffer, or a return value \<open>\<le> 0\<close>\<close>
  accepts :: "accept_result list"
  waits :: "wait_result list"
  sent :: "char list"                  \<comment> \<open>the bytes the kernel took for the peer, in order\<close>
  tasks :: "(int \<times> int) list"          \<comment> \<open>the queue of the worker pool, oldest first\<close>
  trace :: "syscall list"

datatype 'a run = Finished 'a | OutOfScript world

primrec world_of :: "world run \<Rightarrow> world" where
  "world_of (Finished w) = w"
| "world_of (OutOfScript w) = w"

definition log :: "syscall \<Rightarrow> world \<Rightarrow> world" where
  "log c w = w\<lparr>trace := trace w @ [c]\<rparr>"

subsection \<open>System calls\<close>

text \<open>
  \<open>read(fd, buffer, count)\<close> stores at most \<open>count\<close> of the waiting bytes and returns
  their number, so 0 at end-of-stream; the second component is what the call stored at
  the start of the buffer.
\<close>

definition sys_read :: "int \<Rightarrow> int \<Rightarrow> world \<Rightarrow> ((int \<times> char list) \<times> world) option" where
  "sys_read fd count w =
     (case reads w of
        [] \<Rightarrow> None
      | r # rs \<Rightarrow>
          (case r of
             RBytes bs \<Rightarrow>
               Some ((int (length (take (nat count) bs)), take (nat count) bs),
                     log (SysRead fd r) (w\<lparr>reads := rs\<rparr>))
           | RFail e \<Rightarrow>
               Some ((- 1, []), log (SysRead fd r) (w\<lparr>reads := rs, errno := e\<rparr>))))"

text \<open>
  \<open>write(fd, p, count)\<close>, given the \<open>count\<close> bytes at \<open>p\<close>: the kernel takes as many as
  its send buffer has room for and never reports more than \<open>count\<close>; an answer \<open>\<le> 0\<close> is
  the failure's return value.  The \<open>errno\<close> of a failed write is left out: the program
  never reads it.
\<close>

definition sys_write :: "int \<Rightarrow> char list \<Rightarrow> world \<Rightarrow> (int \<times> world) option" where
  "sys_write fd bs w =
     (case writes w of
        [] \<Rightarrow> None
      | r # rs \<Rightarrow>
          (let ret = (if r \<le> 0 then r else min r (int (length bs)))
           in Some (ret, log (SysWrite fd bs ret)
                           (w\<lparr>writes := rs, sent := sent w @ take (nat ret) bs\<rparr>))))"

definition sys_epoll_ctl :: "int \<Rightarrow> epoll_op \<Rightarrow> int \<Rightarrow> 32 word option \<Rightarrow> world \<Rightarrow> int \<times> world" where
  "sys_epoll_ctl epfd op fd ev w =
     (case op of
        EPOLL_CTL_ADD \<Rightarrow>
          (case ev of
             None \<Rightarrow> (- 1, log (SysEpollCtl epfd op fd ev) (w\<lparr>errno := EFAULT\<rparr>))
           | Some m \<Rightarrow>
               if fflags w fd = None then
                 (- 1, log (SysEpollCtl epfd op fd ev) (w\<lparr>errno := EBADF\<rparr>))
               else if interest w (epfd, fd) \<noteq> None then
                 (- 1, log (SysEpollCtl epfd op fd ev) (w\<lparr>errno := EEXIST\<rparr>))
               else if epoll_nomem w then
                 (- 1, log (SysEpollCtl epfd op fd ev) (w\<lparr>errno := ENOMEM\<rparr>))
               else
                 (0, log (SysEpollCtl epfd op fd ev)
                       (w\<lparr>interest := (interest w)((epfd, fd) \<mapsto> m)\<rparr>)))
      | EPOLL_CTL_DEL \<Rightarrow>
          if interest w (epfd, fd) = None then
            (- 1, log (SysEpollCtl epfd op fd ev) (w\<lparr>errno := ENOENT\<rparr>))
          else
            (0, log (SysEpollCtl epfd op fd ev)
                  (w\<lparr>interest := (interest w)((epfd, fd) := None)\<rparr>)))"

text \<open>Closing a descriptor also takes it out of every interest list.\<close>

definition sys_close :: "int \<Rightarrow> world \<Rightarrow> int \<times> world" where
  "sys_close fd w =
     (if fflags w fd = None then (- 1, log (SysClose fd) (w\<lparr>errno := EBADF\<rparr>))
      else (0, log (SysClose fd)
                 (w\<lparr>fflags := (fflags w)(fd := None),
                    interest := (\<lambda>(e, f). if f = fd then None else interest w (e, f))\<rparr>)))"

definition sys_fcntl_getfl :: "int \<Rightarrow> world \<Rightarrow> int \<times> world" where
  "sys_fcntl_getfl fd w =
     (case fflags w fd of
        None \<Rightarrow> (- 1, log (SysFcntlGetfl fd (- 1)) (w\<lparr>errno := EBADF\<rparr>))
      | Some f \<Rightarrow> (int f, log (SysFcntlGetfl fd (int f)) w))"

definition sys_fcntl_setfl :: "int \<Rightarrow> int \<Rightarrow> world \<Rightarrow> int \<times> world" where
  "sys_fcntl_setfl fd arg w =
     (if fflags w fd = None then (- 1, log (SysFcntlSetfl fd arg (- 1)) (w\<lparr>errno := EBADF\<rparr>))
      else (0, log (SysFcntlSetfl fd arg 0) (w\<lparr>fflags := (fflags w)(fd \<mapsto> nat arg)\<rparr>)))"

definition sys_accept :: "int \<Rightarrow> world \<Rightarrow> (int \<times> world) option" where
  "sys_accept lfd w =
     (case accepts w of
        [] \<Rightarrow> None
      | r # rs \<Rightarrow>
          (case r of
             AcceptOk c \<Rightarrow>
               Some (int c, log (SysAccept lfd r)
                              (w\<lparr>accepts := rs, fflags := (fflags w)(int c \<mapsto> O_RDWR)\<rparr>))
           | AcceptFail e \<Rightarrow>
               Some (- 1, log (SysAccept lfd r) (w\<lparr>accepts := rs, errno := e\<rparr>))))"

text \<open>
  \<open>epoll_wait(epfd, events, maxevents, -1)\<close> reports at most \<open>maxevents\<close> events and
  returns their number.
\<close>

definition sys_epoll_wait :: "int \<Rightarrow> int \<Rightarrow> world \<Rightarrow> ((int \<times> int list) \<times> world) option" where
  "sys_epoll_wait epfd maxevents w =
     (case waits w of
        [] \<Rightarrow> None
      | r # rs \<Rightarrow>
          (case r of
             WaitReady fds \<Rightarrow>
               Some ((int (length (take (nat maxevents) fds)), take (nat maxevents) fds),
                     log (SysEpollWait epfd r) (w\<lparr>waits := rs\<rparr>))
           | WaitFail e \<Rightarrow>
               Some ((- 1, []), log (SysEpollWait epfd r) (w\<lparr>waits := rs, errno := e\<rparr>))))"

definition perror :: "string \<Rightarrow> world \<Rightarrow> world" where
  "perror msg w = log (Perror msg) w"

subsection \<open>The worker pool's queue\<close>

text \<open>
  \<open>ThreadPool::enqueue\<close> pushes the task at the back of the queue.  The task the reactor
  submits is the closure \<open>[epoll_fd, fd] { handleClient(epoll_fd, fd); }\<close>, kept here as
  the pair of its captures.  The worker threads that take tasks from the queue come
  below, after \<open>handleClient\<close>.
\<close>

definition enqueue :: "int \<Rightarrow> int \<Rightarrow> world \<Rightarrow> world" where
  "enqueue epoll_fd fd w = log (Enqueue epoll_fd fd) (w\<lparr>tasks := tasks w @ [(epoll_fd, fd)]\<rparr>)"

subsection \<open>\<open>setNonBlocking\<close>\<close>

definition setNonBlocking :: "int \<Rightarrow> world \<Rightarrow> int \<times> world" where
  "setNonBlocking fd w =
     (case sys_fcntl_getfl fd w of
        (flags, w1) \<Rightarrow>
          if flags = - 1 then (- 1, w1)
          else sys_fcntl_setfl fd (flags OR O_NONBLOCK) w1)"

subsection \<open>\<open>handleClient\<close>\<close>

lemma sys_write_script:
  "sys_write fd bs w = Some (ret, w1) \<Longrightarrow> length (writes w1) < length (writes w)"
  by (auto simp: sys_write_def log_def Let_def split: list.splits)

lemma sys_read_script:
  "sys_read fd count w = Some (res, w1) \<Longrightarrow> length (reads w1) < length (reads w)"
  by (auto simp: sys_read_def log_def split: list.splits read_result.splits)

lemma sys_write_reads:
  "sys_write fd bs w = Some (ret, w1) \<Longrightarrow> reads w1 = reads w"
  by (auto simp: sys_write_def log_def Let_def split: list.splits)

text \<open>
  The inner loop \<open>while (total < n)\<close>, with \<open>tot\<close> for the source's \<open>total\<close>.  The
  bytes offered to \<open>write\<close> are the \<open>n - total\<close> bytes at \<open>buffer + total\<close>.  A return
  value \<open>\<le> 0\<close> leaves this loop only.
\<close>

function write_loop :: "int \<Rightarrow> char list \<Rightarrow> int \<Rightarrow> int \<Rightarrow> world \<Rightarrow> (int \<times> world) run" where
  "write_loop fd buffer n tot w =
     (if tot < n then
        (case sys_write fd (take (nat (n - tot)) (drop (nat tot) buffer)) w of
           None \<Rightarrow> OutOfScript w
         | Some (written, w1) \<Rightarrow>
             if written \<le> 0 then Finished (tot, w1)
             else write_loop fd buffer n (tot + written) w1)
      else Finished (tot, w))"
  by pat_completeness auto
termination
  by (relation "measure (\<lambda>(fd, buffer, n, tot, w). length (writes w))")
     (auto dest: sys_write_script)

declare write_loop.simps [simp del]

lemma write_loop_reads:
  "write_loop fd buffer n tot w = Finished (t, w') \<Longrightarrow> reads w' = reads w"
proof (induction fd buffer n tot w rule: write_loop.induct)
  case (1 fd buffer n tot w)
  show ?case
  proof (cases "tot < n")
    case False
    with "1.prems" show ?thesis by (simp add: write_loop.simps)
  next
    case True
    show ?thesis
    proof (cases "sys_write fd (take (nat (n - tot)) (drop (nat tot) buffer)) w")
      case None
      with True "1.prems" show ?thesis by (simp add: write_loop.simps)
    next
      case (Some p)
      obtain written w1 where p: "p = (written, w1)" by (cases p)
      have r: "reads w1 = reads w" using Some p by (auto dest: sys_write_reads)
      show ?thesis
      proof (cases "written \<le> 0")
        case True
        with \<open>tot < n\<close> Some p "1.prems" r show ?thesis by (simp add: write_loop.simps)
      next
        case False
        with \<open>tot < n\<close> Some p "1.prems" have
          "write_loop fd buffer n (tot + written) w1 = Finished (t, w')"
          by (simp add: write_loop.simps)
        with "1.IH" [OF \<open>tot < n\<close> Some p [symmetric] False] r show ?thesis by simp
      qed
    qed
  qed
qed

text \<open>The outer loop \<open>while (true)\<close> of \<open>handleClient\<close>.\<close>

function handleClient :: "int \<Rightarrow> int \<Rightarrow> world \<Rightarrow> world run" where
  "handleClient epoll_fd fd w =
     (case sys_read fd BUFFER_SIZE w of
        None \<Rightarrow> OutOfScript w
      | Some ((n, buffer), w1) \<Rightarrow>
          if n > 0 then
            (case write_loop fd buffer n 0 w1 of
               OutOfScript w2 \<Rightarrow> OutOfScript w2
             | Finished (tot, w2) \<Rightarrow> handleClient epoll_fd fd w2)
          else if n = 0 then
            Finished (snd (sys_close fd (snd (sys_epoll_ctl epoll_fd EPOLL_CTL_DEL fd None w1))))
          else if errno w1 = EAGAIN \<or> errno w1 = EWOULDBLOCK then Finished w1
          else
            Finished (snd (sys_close fd (snd (sys_epoll_ctl epoll_fd EPOLL_CTL_DEL fd None w1)))))"
  by pat_completeness auto
termination
proof (relation "measure (\<lambda>(epoll_fd, fd, w). length (reads w))", goal_cases)
  case 1
  show ?case by simp
next
  case (2 epoll_fd fd w x2 x y n buffer x2a tot w2)
  from 2 have "length (reads y) < length (reads w)"
    by (auto dest: sys_read_script)
  moreover from 2 have "reads w2 = reads y"
    by (auto dest: write_loop_reads)
  ultimately show ?case by simp
qed

declare handleClient.simps [simp del]

text \<open>
  \<open>handleClient_times k\<close> is \<open>k\<close> calls \<open>handleClient(epoll_fd, fd)\<close> of which none
  overlaps another: each starts when the one before has returned.  The program does not
  see to that itself; what its worker threads may do with the tasks for one connection
  is \<open>pool_run\<close> below.
\<close>

fun handleClient_times :: "nat \<Rightarrow> int \<Rightarrow> int \<Rightarrow> world \<Rightarrow> world run" where
  "handleClient_times 0 epoll_fd fd w = Finished w"
| "handleClient_times (Suc k) epoll_fd fd w =
     (case handleClient epoll_fd fd w of
        OutOfScript w1 \<Rightarrow> OutOfScript w1
      | Finished w1 \<Rightarrow> handleClient_times k epoll_fd fd w1)"

text \<open>
  Two ways to class what \<open>handleClient\<close> meets.  A read ends the connection when it
  returns 0 or fails with an error other than \<open>EAGAIN\<close>/\<open>EWOULDBLOCK\<close>.  The calls of an
  iteration that goes on are a read of at least one byte and the writes that follow it,
  all on the connection's descriptor.
\<close>

fun end_of_connection :: "read_result \<Rightarrow> bool" where
  "end_of_connection (RBytes bs) = (bs = [])"
| "end_of_connection (RFail e) = (e \<noteq> EAGAIN \<and> e \<noteq> EWOULDBLOCK)"

fun data_io :: "int \<Rightarrow> syscall \<Rightarrow> bool" where
  "data_io fd (SysRead f (RBytes bs)) = (f = fd \<and> bs \<noteq> [])"
| "data_io fd (SysWrite f bs ret) = (f = fd)"
| "data_io fd c = False"

subsection \<open>\<open>epollLoop\<close>\<close>

lemma setNonBlocking_scripts:
  "accepts (snd (setNonBlocking fd w)) = accepts w"
  "waits (snd (setNonBlocking fd w)) = waits w"
  by (auto simp: setNonBlocking_def sys_fcntl_getfl_def sys_fcntl_setfl_def log_def
           split: option.splits prod.splits)

lemma sys_epoll_ctl_scripts:
  "accepts (snd (sys_epoll_ctl epfd op fd ev w)) = accepts w"
  "waits (snd (sys_epoll_ctl epfd op fd ev w)) = waits w"
  by (auto simp: sys_epoll_ctl_def log_def split: epoll_op.splits option.splits)

lemma sys_accept_script:
  "sys_accept lfd w = Some (c, w1) \<Longrightarrow>
     length (accepts w1) < length (accepts w) \<and> waits w1 = waits w"
  by (auto simp: sys_accept_def log_def split: list.splits accept_result.splits)

text \<open>The loop \<open>while (true)\<close> around \<open>accept\<close>, entered when the ready descriptor is the listener.\<close>

function epollLoop_accept :: "int \<Rightarrow> int \<Rightarrow> world \<Rightarrow> world run" where
  "epollLoop_accept epoll_fd listen_fd w =
     (case sys_accept listen_fd w of
        None \<Rightarrow> OutOfScript w
      | Some (client_fd, w1) \<Rightarrow>
          if client_fd < 0 then
            (if errno w1 = EAGAIN \<or> errno w1 = EWOULDBLOCK then Finished w1
             else Finished (perror ''accept'' w1))
          else
            epollLoop_accept epoll_fd listen_fd
              (snd (sys_epoll_ctl epoll_fd EPOLL_CTL_ADD client_fd (Some (EPOLLIN OR EPOLLET))
                     (snd (setNonBlocking client_fd w1)))))"
  by pat_completeness auto
termination
  by (relation "measure (\<lambda>(epoll_fd, listen_fd, w). length (accepts w))")
     (auto simp: setNonBlocking_scripts sys_epoll_ctl_scripts dest: sys_accept_script)

declare epollLoop_accept.simps [simp del]

text \<open>The loop \<open>for (int i = 0; i < nfds; ++i)\<close> over the reported events.\<close>

fun epollLoop_events :: "int \<Rightarrow> int \<Rightarrow> int list \<Rightarrow> world \<Rightarrow> world run" where
  "epollLoop_events epoll_fd listen_fd [] w = Finished w"
| "epollLoop_events epoll_fd listen_fd (fd # fds) w =
     (if fd = listen_fd then
        (case epollLoop_accept epoll_fd listen_fd w of
           OutOfScript w1 \<Rightarrow> OutOfScript w1
         | Finished w1 \<Rightarrow> epollLoop_events epoll_fd listen_fd fds w1)
      else epollLoop_events epoll_fd listen_fd fds (enqueue epoll_fd fd w))"

lemma epollLoop_accept_waits:
  "epollLoop_accept epoll_fd listen_fd w = Finished w' \<Longrightarrow> waits w' = waits w"
proof (induction epoll_fd listen_fd w rule: epollLoop_accept.induct)
  case (1 epoll_fd listen_fd w)
  show ?case
  proof (cases "sys_accept listen_fd w")
    case None
    with "1.prems" show ?thesis by (simp add: epollLoop_accept.simps)
  next
    case (Some p)
    obtain client_fd w1 where p: "p = (client_fd, w1)" by (cases p)
    have r: "waits w1 = waits w" using Some p by (auto dest: sys_accept_script)
    show ?thesis
    proof (cases "client_fd < 0")
      case True
      with Some p "1.prems" r show ?thesis
        by (auto simp: epollLoop_accept.simps perror_def log_def split: if_splits)
    next
      case False
      with Some p "1.prems" have
        "epollLoop_accept epoll_fd listen_fd
           (snd (sys_epoll_ctl epoll_fd EPOLL_CTL_ADD client_fd (Some (EPOLLIN OR EPOLLET))
                  (snd (setNonBlocking client_fd w1)))) = Finished w'"
        by (simp add: epollLoop_accept.simps)
      with "1.IH" [OF Some p [symmetric] False] r show ?thesis
        by (simp add: setNonBlocking_scripts sys_epoll_ctl_scripts)
    qed
  qed
qed

lemma epollLoop_events_waits:
  "epollLoop_events epoll_fd listen_fd fds w = Finished w' \<Longrightarrow> waits w' = waits w"
proof (induction fds arbitrary: w)
  case Nil
  then show ?case by simp
next
  case (Cons fd fds)
  show ?case
  proof (cases "fd = listen_fd")
    case True
    with Cons.prems obtain w1 where
      a: "epollLoop_accept epoll_fd listen_fd w = Finished w1" and
      b: "epollLoop_events epoll_fd listen_fd fds w1 = Finished w'"
      by (auto split: run.splits)
    from Cons.IH [OF b] epollLoop_accept_waits [OF a] show ?thesis by simp
  next
    case False
    with Cons.prems have "epollLoop_events epoll_fd listen_fd fds (enqueue epoll_fd fd w) = Finished w'"
      by simp
    from Cons.IH [OF this] show ?thesis by (simp add: enqueue_def log_def)
  qed
qed

lemma sys_epoll_wait_script:
  "sys_epoll_wait epfd m w = Some (res, w1) \<Longrightarrow> length (waits w1) < length (waits w)"
  by (auto simp: sys_epoll_wait_def log_def split: list.splits wait_result.splits)

text \<open>The loop \<open>while (true)\<close> of \<open>epollLoop\<close>.  It returns after its \<open>break\<close> only.\<close>

function epollLoop :: "int \<Rightarrow> int \<Rightarrow> world \<Rightarrow> world run" where
  "epollLoop epoll_fd listen_fd w =
     (case sys_epoll_wait epoll_fd MAX_EVENTS w of
        None \<Rightarrow> OutOfScript w
      | Some ((nfds, events), w1) \<Rightarrow>
          if nfds < 0 then
            (if errno w1 = EINTR then epollLoop epoll_fd listen_fd w1
             else Finished (perror ''epoll_wait'' w1))
          else
            (case epollLoop_events epoll_fd listen_fd (take (nat nfds) events) w1 of
               OutOfScript w2 \<Rightarrow> OutOfScript w2
             | Finished w2 \<Rightarrow> epollLoop epoll_fd listen_fd w2))"
  by pat_completeness auto
termination
proof (relation "measure (\<lambda>(epoll_fd, listen_fd, w). length (waits w))", goal_cases)
  case 1
  show ?case by simp
next
  case (2 epoll_fd listen_fd w x2 x y nfds events)
  then show ?case by (auto dest: sys_epoll_wait_script)
next
  case (3 epoll_fd listen_fd w x2 x y nfds events w2)
  from 3 have "length (waits y) < length (waits w)"
    by (auto dest: sys_epoll_wait_script)
  moreover from 3 have "waits w2 = waits y"
    by (auto dest: epollLoop_events_waits)
  ultimately show ?case by simp
qed

declare epollLoop.simps [simp del]

subsection \<open>\<open>main\<close>\<close>

text \<open>
  The answers of the calls \<open>main\<close> makes once.  \<open>main\<close> either returns a value or, past
  the setup, stays in \<open>while (true) sleep\<close> for ever: \<open>Serving\<close>, with the world it has set
  up for the detached thread that runs \<open>epollLoop\<close>.
\<close>

record startup =
  socket_ret :: int
  setsockopt_ret :: int
  bind_ret :: int
  listen_ret :: int
  epoll_create1_ret :: int

datatype exit = Returns int world | Serving world

primrec returned :: "exit \<Rightarrow> int option" where
  "returned (Returns c w) = Some c"
| "returned (Serving w) = None"

primrec exit_world :: "exit \<Rightarrow> world" where
  "exit_world (Returns c w) = w"
| "exit_world (Serving w) = w"

definition main :: "startup \<Rightarrow> world \<Rightarrow> exit" where
  "main st w =
     (let listen_fd = socket_ret st;
          w1 = log (SysSocket listen_fd)
                 (if listen_fd < 0 then w else w\<lparr>fflags := (fflags w)(listen_fd \<mapsto> O_RDWR)\<rparr>)
      in if listen_fd < 0 then Returns 1 (perror ''socket failed'' w1)
      else
        let w2 = log (SysSetsockopt listen_fd (setsockopt_ret st)) w1;
            w3 = log (SysBind listen_fd PORT (bind_ret st)) w2
        in if bind_ret st < 0 then Returns 1 (perror ''bind failed'' w3)
        else
          let w4 = log (SysListen listen_fd (listen_ret st)) w3
          in if listen_ret st < 0 then Returns 1 (perror ''listen failed'' w4)
          else
            let w5 = snd (setNonBlocking listen_fd w4);
                epoll_fd = epoll_create1_ret st;
                w6 = log (SysEpollCreate1 epoll_fd)
                       (if epoll_fd < 0 then w5 else w5\<lparr>fflags := (fflags w5)(epoll_fd \<mapsto> O_RDWR)\<rparr>)
            in if epoll_fd < 0 then Returns 1 (perror ''epoll_create1'' w6)
            else
              let w7 = snd (sys_epoll_ctl epoll_fd EPOLL_CTL_ADD listen_fd
                              (Some (EPOLLIN OR EPOLLET)) w6)
              in Serving (log (Stdout ''High-performance server listening on port 9090'') w7))"

subsection \<open>The worker threads\<close>

text \<open>
  \<open>handleClient\<close> once more, one system call at a time, so that the calls of two
  workers can fall between each other.  \<open>pc\<close> is where a call of \<open>handleClient\<close>
  stands, with its local variables: before the \<open>read\<close>; before a \<open>write\<close> in the inner
  loop, with \<open>buffer\<close>, \<open>n\<close> and \<open>total\<close>; before the \<open>epoll_ctl\<close>; before the \<open>close\<close>;
  returned.  Each call has its own \<open>buffer\<close>.  \<open>pool_run_handleClient\<close> below shows
  that these steps, taken by one worker without another's in between, are
  \<open>handleClient\<close>.
\<close>

datatype pc = AtRead | AtWrite "char list" int int | AtDel | AtClose | Returned

fun handler_step :: "int \<Rightarrow> int \<Rightarrow> pc \<Rightarrow> world \<Rightarrow> (pc \<times> world) option" where
  "handler_step epoll_fd fd AtRead w =
     (case sys_read fd BUFFER_SIZE w of
        None \<Rightarrow> None
      | Some ((n, buffer), w1) \<Rightarrow>
          Some (if n > 0 then AtWrite buffer n 0
                else if n = 0 then AtDel
                else if errno w1 = EAGAIN \<or> errno w1 = EWOULDBLOCK then Returned
                else AtDel, w1))"
| "handler_step epoll_fd fd (AtWrite buffer n tot) w =
     (case sys_write fd (take (nat (n - tot)) (drop (nat tot) buffer)) w of
        None \<Rightarrow> None
      | Some (written, w1) \<Rightarrow>
          Some (if written \<le> 0 then AtRead
                else if tot + written < n then AtWrite buffer n (tot + written)
                else AtRead, w1))"
| "handler_step epoll_fd fd AtDel w =
     Some (AtClose, snd (sys_epoll_ctl epoll_fd EPOLL_CTL_DEL fd None w))"
| "handler_step epoll_fd fd AtClose w = Some (Returned, snd (sys_close fd w))"
| "handler_step epoll_fd fd Returned w = Some (Returned, w)"

text \<open>
  A worker thread of \<open>ThreadPool\<close>: it waits until the queue is not empty, takes the
  task at the front and runs it to its end, then waits again.  A step of an idle worker
  on an empty queue changes nothing.
\<close>

datatype worker = Idle | Busy int int pc

fun worker_step :: "worker \<Rightarrow> world \<Rightarrow> (worker \<times> world) option" where
  "worker_step Idle w =
     (case tasks w of
        [] \<Rightarrow> Some (Idle, w)
      | (epoll_fd, fd) # q \<Rightarrow> Some (Busy epoll_fd fd AtRead, w\<lparr>tasks := q\<rparr>))"
| "worker_step (Busy epoll_fd fd p) w =
     (case handler_step epoll_fd fd p w of
        None \<Rightarrow> None
      | Some (p1, w1) \<Rightarrow> Some (if p1 = Returned then Idle else Busy epoll_fd fd p1, w1))"

text \<open>
  The threads take their steps in an order the program does not fix.  \<open>Work i\<close> is a
  step of worker \<open>i\<close>; \<open>Submit epoll_fd fd\<close> is the reactor thread reaching
  \<open>pool.enqueue\<close> for a ready connection.  \<open>pool_run\<close> takes the steps of a given order.
\<close>

datatype action = Work nat | Submit int int

fun pool_run :: "action list \<Rightarrow> worker list \<Rightarrow> world \<Rightarrow> (worker list \<times> world) run" where
  "pool_run [] ws w = Finished (ws, w)"
| "pool_run (Work i # acts) ws w =
     (if i < length ws then
        (case worker_step (ws ! i) w of
           None \<Rightarrow> OutOfScript w
         | Some (wk, w1) \<Rightarrow> pool_run acts (ws[i := wk]) w1)
      else pool_run acts ws w)"
| "pool_run (Submit epoll_fd fd # acts) ws w = pool_run acts ws (enqueue epoll_fd fd w)"

definition idle_pool :: "worker list" where
  "idle_pool = replicate THREAD_POOL_SIZE Idle"

text \<open>
  An order of steps in which no two calls of \<open>handleClient\<close> overlap: whenever a step
  leaves its worker in the middle of a call, every other worker is idle.  So a worker
  takes a task only while no call is running, and a running call has the steps to itself,
  apart from the reactor's, until it has returned.  The program has nothing that makes
  the threads keep to such an order.
\<close>

fun pool_serial :: "action list \<Rightarrow> worker list \<Rightarrow> world \<Rightarrow> bool" where
  "pool_serial [] ws w = True"
| "pool_serial (Work i # acts) ws w =
     (if i < length ws then
        (case worker_step (ws ! i) w of
           None \<Rightarrow> True
         | Some (wk, w1) \<Rightarrow>
             (wk = Idle \<or> (\<forall>x\<in>set (ws[i := Idle]). x = Idle)) \<and>
             pool_serial acts (ws[i := wk]) w1)
      else pool_serial acts ws w)"
| "pool_serial (Submit epoll_fd fd # acts) ws w = pool_serial acts ws (enqueue epoll_fd fd w)"

text \<open>
  Two worlds are \<open>alike\<close> when they differ at most in the queue and in the record of
  calls: the descriptors, the registrations, the scripts and the bytes sent agree.
\<close>

definition alike :: "world \<Rightarrow> world \<Rightarrow> bool" where
  "alike w v \<longleftrightarrow>
     errno w = errno v \<and> fflags w = fflags v \<and> interest w = interest v \<and>
     epoll_nomem w = epoll_nomem v \<and> reads w = reads v \<and> writes w = writes v \<and>
     accepts w = accepts v \<and> waits w = waits v \<and> sent w = sent v"

text \<open>
  \<open>complete\<close> is the rest of a call of \<open>handleClient\<close> that stands at \<open>pc\<close>, run to its
  end without a stop; \<open>rest_of\<close> is that, and then \<open>k\<close> more calls one after the other.
  In the inner loop \<open>total < n\<close> holds before each \<open>write\<close>, which is \<open>pc_ok\<close>.
\<close>

fun complete :: "int \<Rightarrow> int \<Rightarrow> pc \<Rightarrow> world \<Rightarrow> world run" where
  "complete epoll_fd fd AtRead w = handleClient epoll_fd fd w"
| "complete epoll_fd fd (AtWrite buffer n tot) w =
     (case write_loop fd buffer n tot w of
        OutOfScript w2 \<Rightarrow> OutOfScript w2
      | Finished (t, w2) \<Rightarrow> handleClient epoll_fd fd w2)"
| "complete epoll_fd fd AtDel w =
     Finished (snd (sys_close fd (snd (sys_epoll_ctl epoll_fd EPOLL_CTL_DEL fd None w))))"
| "complete epoll_fd fd AtClose w = Finished (snd (sys_close fd w))"
| "complete epoll_fd fd Returned w = Finished w"

fun pc_ok :: "pc \<Rightarrow> bool" where
  "pc_ok (AtWrite buffer n tot) = (tot < n)"
| "pc_ok p = True"

definition rest_of :: "int \<Rightarrow> int \<Rightarrow> pc \<Rightarrow> nat \<Rightarrow> world \<Rightarrow> world run" where
  "rest_of epoll_fd fd p k w =
     (case complete epoll_fd fd p w of
        OutOfScript w1 \<Rightarrow> OutOfScript w1
      | Finished w1 \<Rightarrow> handleClient_times k epoll_fd fd w1)"

text \<open>
  \<open>pool_state epoll_fd fd ws cur\<close>: either no call is running and every worker is idle
  (\<open>cur = None\<close>), or worker \<open>i\<close> is in a call of \<open>handleClient epoll_fd fd\<close> at \<open>p\<close> and
  the others are idle (\<open>cur = Some (i, p)\<close>).
\<close>

fun pool_state :: "int \<Rightarrow> int \<Rightarrow> worker list \<Rightarrow> (nat \<times> pc) option \<Rightarrow> bool" where
  "pool_state epoll_fd fd ws None = (\<forall>j < length ws. ws ! j = Idle)"
| "pool_state epoll_fd fd ws (Some (i, p)) =
     (i < length ws \<and> ws ! i = Busy epoll_fd fd p \<and> p \<noteq> Returned \<and> pc_ok p \<and>
      (\<forall>j < length ws. j = i \<or> ws ! j = Idle))"

fun cur_pc :: "(nat \<times> pc) option \<Rightarrow> pc" where
  "cur_pc None = Returned"
| "cur_pc (Some (i, p)) = p"

text \<open>A read that hands over at least one byte.\<close>

fun delivers_data :: "read_result \<Rightarrow> bool" where
  "delivers_data (RBytes bs) = (bs \<noteq> [])"
| "delivers_data (RFail e) = False"

subsection \<open>Worlds to run the server in\<close>

text \<open>
  \<open>fresh_world\<close> is a process that has opened nothing, with empty scripts.  In
  \<open>serving_world\<close> the epoll instance is descriptor 3, the listener is 4 and one
  connection, 5, is open; both sockets are non-blocking and registered.
\<close>

definition fresh_world :: world where
  "fresh_world =
     \<lparr>errno = 0, fflags = Map.empty, interest = Map.empty, epoll_nomem = False,
      reads = [], writes = [], accepts = [], waits = [], sent = [], tasks = [], trace = []\<rparr>"

definition serving_world :: world where
  "serving_world =
     fresh_world\<lparr>fflags := [3 \<mapsto> 2, 4 \<mapsto> 2050, 5 \<mapsto> 2050],
                 interest := [(3, 4) \<mapsto> EPOLLIN OR EPOLLET, (3, 5) \<mapsto> EPOLLIN OR EPOLLET]\<rparr>"

definition startup_ok :: startup where
  "startup_ok =
     \<lparr>socket_ret = 4, setsockopt_ret = 0, bind_ret = 0, listen_ret = 0, epoll_create1_ret = 3\<rparr>"

lemmas syscall_defs =
  sys_read_def sys_write_def sys_epoll_ctl_def sys_close_def sys_fcntl_getfl_def
  sys_fcntl_setfl_def sys_accept_def sys_epoll_wait_def perror_def enqueue_def log_def

lemmas constant_defs =
  PORT_def MAX_EVENTS_def BUFFER_SIZE_def ENOENT_def EINTR_def EBADF_def EAGAIN_def
  EWOULDBLOCK_def ENOMEM_def EFAULT_def EEXIST_def O_RDWR_def O_NONBLOCK_def

lemmas run_simps =
  handleClient.simps write_loop.simps syscall_defs constant_defs
  serving_world_def fresh_world_def Let_def

lemmas loop_simps =
  epollLoop.simps epollLoop_accept.simps setNonBlocking_def syscall_defs constant_defs
  serving_world_def fresh_world_def Let_def

lemmas pool_simps = syscall_defs constant_defs serving_world_def fresh_world_def Let_def
  idle_pool_def THREAD_POOL_SIZE_def numeral_eq_Suc

section \<open>\<open>setNonBlocking\<close> changes one flag\<close>

lemma nat_or_O_NONBLOCK: "nat (int f OR O_NONBLOCK) = f OR 2048"
  unfolding O_NONBLOCK_def
  by (metis nat_int of_nat_numeral of_nat_or_eq)

lemma bit_2048: "bit (2048 :: nat) k \<longleftrightarrow> k = 11"
proof -
  have "(2048 :: nat) = 2 ^ 11" by simp
  then show ?thesis by (simp only: bit_exp_iff) auto
qed

text \<open>
  Claim C10.  \<open>setNonBlocking\<close> only adds \<open>O_NONBLOCK\<close> (bit 11, the value 2048).  When
  it does not return -1, the descriptor was open with some flags \<open>f\<close>, and afterwards its
  flags are \<open>f OR 2048\<close>: bit 11 is set and every other bit is the bit of \<open>f\<close>; the flags of
  every other descriptor are as before.  When reading the flags fails, it returns -1,
  no flag of any descriptor has changed, and \<open>F_SETFL\<close> was not called.
\<close>

theorem setNonBlocking_only_adds_O_NONBLOCK:
  "(fst (setNonBlocking fd w) \<noteq> - 1 \<longrightarrow>
      (\<exists>f. fflags w fd = Some f \<and>
           fflags (snd (setNonBlocking fd w)) = (fflags w)(fd \<mapsto> f OR 2048) \<and>
           (\<forall>k. bit (f OR (2048 :: nat)) k \<longleftrightarrow> bit f k \<or> k = 11))) \<and>
   (fst (sys_fcntl_getfl fd w) = - 1 \<longrightarrow>
      fst (setNonBlocking fd w) = - 1 \<and>
      fflags (snd (setNonBlocking fd w)) = fflags w \<and>
      trace (snd (setNonBlocking fd w)) = trace w @ [SysFcntlGetfl fd (- 1)])"
  by (auto simp: setNonBlocking_def sys_fcntl_getfl_def sys_fcntl_setfl_def log_def
                 nat_or_O_NONBLOCK bit_or_iff bit_2048 split: option.splits)

theorem setNonBlocking_only_adds_O_NONBLOCK_witness:
  "fst (setNonBlocking 5 (fresh_world\<lparr>fflags := [5 \<mapsto> 2]\<rparr>)) \<noteq> - 1 \<and>
   fflags (snd (setNonBlocking 5 (fresh_world\<lparr>fflags := [5 \<mapsto> 2]\<rparr>))) 5 = Some 2050 \<and>
   fst (sys_fcntl_getfl 9 (fresh_world\<lparr>fflags := [5 \<mapsto> 2]\<rparr>)) = - 1 \<and>
   fst (setNonBlocking 9 (fresh_world\<lparr>fflags := [5 \<mapsto> 2]\<rparr>)) = - 1 \<and>
   fflags (snd (setNonBlocking 9 (fresh_world\<lparr>fflags := [5 \<mapsto> 2]\<rparr>))) 5 = Some 2"
  using setNonBlocking_only_adds_O_NONBLOCK [of 5 "fresh_world\<lparr>fflags := [5 \<mapsto> 2]\<rparr>"]
        setNonBlocking_only_adds_O_NONBLOCK [of 9 "fresh_world\<lparr>fflags := [5 \<mapsto> 2]\<rparr>"]
  by (simp add: setNonBlocking_def sys_fcntl_getfl_def sys_fcntl_setfl_def log_def
                fresh_world_def O_NONBLOCK_def)

section \<open>The exit code of \<open>main\<close>\<close>

text \<open>
  Claim C3, as the claim states it, fails: when the registration of the listener
  fails, \<open>main\<close> does not return.  Here the kernel has no room for a registration, so
  \<open>epoll_ctl(epoll_fd, EPOLL_CTL_ADD, listen_fd, &ev)\<close> returns -1; \<open>main\<close> has made that
  call, the listener is in no interest list, and \<open>main\<close> goes on to serve.
\<close>

theorem main_registration_failure_counterexample:
  "fst (sys_epoll_ctl 3 EPOLL_CTL_ADD 4 (Some (EPOLLIN OR EPOLLET))
         (fresh_world\<lparr>fflags := [4 \<mapsto> 2050, 3 \<mapsto> 2], epoll_nomem := True\<rparr>)) = - 1 \<and>
   returned (main startup_ok (fresh_world\<lparr>epoll_nomem := True\<rparr>)) = None \<and>
   interest (exit_world (main startup_ok (fresh_world\<lparr>epoll_nomem := True\<rparr>))) (3, 4) = None \<and>
   SysEpollCtl 3 EPOLL_CTL_ADD 4 (Some (EPOLLIN OR EPOLLET))
     \<in> set (trace (exit_world (main startup_ok (fresh_world\<lparr>epoll_nomem := True\<rparr>))))"
  by (simp add: main_def Let_def startup_ok_def fresh_world_def setNonBlocking_def
                syscall_defs constant_defs)

text \<open>
  Claim C3, amended.  \<open>main\<close> returns 1 when \<open>socket\<close>, \<open>bind\<close>, \<open>listen\<close> or
  \<open>epoll_create1\<close> fails.  When these four succeed \<open>main\<close> does not return, whatever
  \<open>setsockopt\<close>, \<open>setNonBlocking\<close> and the \<open>epoll_ctl\<close> that registers the listener have
  answered: their results are not looked at.
\<close>

theorem main_exit_codes:
  "returned (main st w) =
     (if socket_ret st < 0 \<or> bind_ret st < 0 \<or> listen_ret st < 0 \<or> epoll_create1_ret st < 0
      then Some 1 else None)"
  by (simp add: main_def Let_def)

section \<open>A failed \<open>epoll_wait\<close>\<close>

lemma epollLoop_WaitFail:
  "waits w = WaitFail e # rest \<Longrightarrow>
   epollLoop epoll_fd listen_fd w =
     (if e = EINTR
      then epollLoop epoll_fd listen_fd
             (w\<lparr>waits := rest, errno := e, trace := trace w @ [SysEpollWait epoll_fd (WaitFail e)]\<rparr>)
      else Finished
             (w\<lparr>waits := rest, errno := e,
                trace := trace w @ [SysEpollWait epoll_fd (WaitFail e), Perror ''epoll_wait'']\<rparr>))"
  by (subst epollLoop.simps) (simp add: sys_epoll_wait_def log_def perror_def)

lemma epollLoop_interrupts:
  "waits w = replicate k (WaitFail EINTR) @ rest \<Longrightarrow>
   epollLoop epoll_fd listen_fd w =
     epollLoop epoll_fd listen_fd
       (w\<lparr>waits := rest, errno := (if k = 0 then errno w else EINTR),
          trace := trace w @ replicate k (SysEpollWait epoll_fd (WaitFail EINTR))\<rparr>)"
proof (induction k arbitrary: w)
  case 0
  then have "rest = waits w" by simp
  then show ?case by simp
next
  case (Suc k)
  let ?w1 = "w\<lparr>waits := replicate k (WaitFail EINTR) @ rest, errno := EINTR,
                 trace := trace w @ [SysEpollWait epoll_fd (WaitFail EINTR)]\<rparr>"
  from Suc.prems have "epollLoop epoll_fd listen_fd w = epollLoop epoll_fd listen_fd ?w1"
    by (simp add: epollLoop_WaitFail)
  also have "\<dots> = epollLoop epoll_fd listen_fd
       (?w1\<lparr>waits := rest, errno := (if k = 0 then errno ?w1 else EINTR),
          trace := trace ?w1 @ replicate k (SysEpollWait epoll_fd (WaitFail EINTR))\<rparr>)"
    by (rule Suc.IH) simp
  finally show ?case by (simp add: replicate_app_Cons_same)
qed

text \<open>
  Claim C7.  After \<open>k\<close> waits interrupted by a signal (\<open>EINTR\<close>) the loop stands where
  it would stand had they not happened: it has only made the \<open>k\<close> calls, printed
  nothing and enqueued nothing, and goes on with the next wait.  When the next wait
  fails with another error, the loop prints \<open>perror("epoll_wait")\<close> and returns: the
  later answers \<open>rest'\<close> are never asked for, and the function's return is all that
  happens.
\<close>

theorem epollLoop_wait_failure:
  "waits w = replicate k (WaitFail EINTR) @ rest \<Longrightarrow>
   epollLoop epoll_fd listen_fd w =
     epollLoop epoll_fd listen_fd
       (w\<lparr>waits := rest, errno := (if k = 0 then errno w else EINTR),
          trace := trace w @ replicate k (SysEpollWait epoll_fd (WaitFail EINTR))\<rparr>) \<and>
   (\<forall>e rest'. rest = WaitFail e # rest' \<and> e \<noteq> EINTR \<longrightarrow>
      epollLoop epoll_fd listen_fd w =
        Finished (w\<lparr>waits := rest', errno := e,
                    trace := trace w @ replicate k (SysEpollWait epoll_fd (WaitFail EINTR)) @
                             [SysEpollWait epoll_fd (WaitFail e), Perror ''epoll_wait'']\<rparr>))"
proof (intro conjI allI impI)
  show "epollLoop epoll_fd listen_fd w =
     epollLoop epoll_fd listen_fd
       (w\<lparr>waits := rest, errno := (if k = 0 then errno w else EINTR),
          trace := trace w @ replicate k (SysEpollWait epoll_fd (WaitFail EINTR))\<rparr>)"
    if "waits w = replicate k (WaitFail EINTR) @ rest"
    using that by (rule epollLoop_interrupts)
next
  fix e rest'
  assume w: "waits w = replicate k (WaitFail EINTR) @ rest"
    and r: "rest = WaitFail e # rest' \<and> e \<noteq> EINTR"
  show "epollLoop epoll_fd listen_fd w =
        Finished (w\<lparr>waits := rest', errno := e,
                    trace := trace w @ replicate k (SysEpollWait epoll_fd (WaitFail EINTR)) @
                             [SysEpollWait epoll_fd (WaitFail e), Perror ''epoll_wait'']\<rparr>)"
    using r by (simp add: epollLoop_interrupts [OF w] epollLoop_WaitFail)
qed

theorem epollLoop_wait_failure_witness:
  "waits (serving_world\<lparr>waits := [WaitFail 4, WaitFail 4, WaitFail 9, WaitReady [5]]\<rparr>) =
     replicate 2 (WaitFail EINTR) @ [WaitFail 9, WaitReady [5]] \<and>
   epollLoop 3 4 (serving_world\<lparr>waits := [WaitFail 4, WaitFail 4, WaitFail 9, WaitReady [5]]\<rparr>) =
     Finished (serving_world
       \<lparr>waits := [WaitReady [5]], errno := 9,
        trace := [SysEpollWait 3 (WaitFail 4), SysEpollWait 3 (WaitFail 4),
                  SysEpollWait 3 (WaitFail 9), Perror ''epoll_wait'']\<rparr>)"
  using epollLoop_wait_failure
          [of "serving_world\<lparr>waits := [WaitFail 4, WaitFail 4, WaitFail 9, WaitReady [5]]\<rparr>"
              2 "[WaitFail 9, WaitReady [5]]" 3 4]
  by (auto simp: EINTR_def serving_world_def fresh_world_def numeral_2_eq_2)

section \<open>The inner write loop\<close>

lemma sys_write_Some:
  "sys_write fd bs w = Some (ret, w1) \<Longrightarrow>
   \<exists>r rs. writes w = r # rs \<and> ret = (if r \<le> 0 then r else min r (int (length bs))) \<and>
     w1 = w\<lparr>writes := rs, sent := sent w @ take (nat ret) bs,
            trace := trace w @ [SysWrite fd bs ret]\<rparr>"
  by (auto simp: sys_write_def log_def Let_def split: list.splits)

lemma write_loop_general:
  "n = int (length buffer) \<Longrightarrow> 0 \<le> tot \<Longrightarrow> tot \<le> n \<Longrightarrow>
   \<exists>t calls. tot \<le> t \<and> t \<le> n \<and>
     sent (world_of (map_run snd (write_loop fd buffer n tot w))) =
       sent w @ take (nat (t - tot)) (drop (nat tot) buffer) \<and>
     trace (world_of (map_run snd (write_loop fd buffer n tot w))) = trace w @ calls \<and>
     (\<forall>c\<in>set calls. \<exists>k ret. c = SysWrite fd (drop k buffer) ret \<and> int k + ret \<le> n) \<and>
     reads (world_of (map_run snd (write_loop fd buffer n tot w))) = reads w \<and>
     fflags (world_of (map_run snd (write_loop fd buffer n tot w))) = fflags w \<and>
     interest (world_of (map_run snd (write_loop fd buffer n tot w))) = interest w \<and>
     (\<forall>t' w'. write_loop fd buffer n tot w = Finished (t', w') \<longrightarrow> t' = t)"
proof (induction fd buffer n tot w rule: write_loop.induct)
  case (1 fd buffer n tot w)
  show ?case
  proof (cases "tot < n")
    case False
    with "1.prems" have "write_loop fd buffer n tot w = Finished (tot, w)"
      by (simp add: write_loop.simps)
    with "1.prems" show ?thesis
      by (intro exI [of _ tot] exI [of _ "[]"]) simp
  next
    case True
    let ?bs = "take (nat (n - tot)) (drop (nat tot) buffer)"
    have bs: "?bs = drop (nat tot) buffer" using "1.prems" by simp
    show ?thesis
    proof (cases "sys_write fd ?bs w")
      case None
      with True have "write_loop fd buffer n tot w = OutOfScript w"
        by (simp add: write_loop.simps)
      with "1.prems" show ?thesis
        by (intro exI [of _ tot] exI [of _ "[]"]) simp
    next
      case (Some p)
      obtain written w1 where p: "p = (written, w1)" by (cases p)
      from Some p have "sys_write fd ?bs w = Some (written, w1)" by simp
      from sys_write_Some [OF this] obtain r rs where
        ret: "written = (if r \<le> 0 then r else min r (int (length ?bs)))" and
        w1: "w1 = w\<lparr>writes := rs, sent := sent w @ take (nat written) ?bs,
                      trace := trace w @ [SysWrite fd ?bs written]\<rparr>"
        by blast
      show ?thesis
      proof (cases "written \<le> 0")
        case True
        with \<open>tot < n\<close> Some p have "write_loop fd buffer n tot w = Finished (tot, w1)"
          by (simp add: write_loop.simps)
        moreover from True "1.prems" have "int (nat tot) + written \<le> n" by simp
        with bs have "\<exists>k ret. SysWrite fd ?bs written = SysWrite fd (drop k buffer) ret \<and>
            int k + ret \<le> n"
          by (intro exI [of _ "nat tot"] exI [of _ written]) simp
        ultimately show ?thesis using "1.prems" True w1
          by (intro exI [of _ tot] exI [of _ "[SysWrite fd ?bs written]"]) simp
      next
        case False
        with \<open>tot < n\<close> Some p have
          eq: "write_loop fd buffer n tot w = write_loop fd buffer n (tot + written) w1"
          by (simp add: write_loop.simps)
        from False ret "1.prems" \<open>tot < n\<close> have le: "tot + written \<le> n"
          by (auto split: if_splits)
        from "1.IH" [OF \<open>tot < n\<close> Some p [symmetric] False "1.prems"(1) _ le] False "1.prems"
        obtain t calls where
          t: "tot + written \<le> t" "t \<le> n" and
          s: "sent (world_of (map_run snd (write_loop fd buffer n (tot + written) w1))) =
                sent w1 @ take (nat (t - (tot + written))) (drop (nat (tot + written)) buffer)" and
          tr: "trace (world_of (map_run snd (write_loop fd buffer n (tot + written) w1))) =
                trace w1 @ calls" and
          cs: "\<forall>c\<in>set calls. \<exists>k ret. c = SysWrite fd (drop k buffer) ret \<and> int k + ret \<le> n" and
          fr: "reads (world_of (map_run snd (write_loop fd buffer n (tot + written) w1))) = reads w1"
              "fflags (world_of (map_run snd (write_loop fd buffer n (tot + written) w1))) = fflags w1"
              "interest (world_of (map_run snd (write_loop fd buffer n (tot + written) w1))) = interest w1" and
          fin: "\<forall>t' w'. write_loop fd buffer n (tot + written) w1 = Finished (t', w') \<longrightarrow> t' = t"
          by auto
        have "take (nat written) (drop (nat tot) buffer) @
              take (nat (t - (tot + written))) (drop (nat (tot + written)) buffer) =
              take (nat (t - tot)) (drop (nat tot) buffer)"
        proof -
          have a: "nat (t - tot) = nat written + nat (t - (tot + written))"
            using False t "1.prems" by simp
          have b: "nat (tot + written) = nat written + nat tot"
            using False "1.prems" by simp
          show ?thesis by (simp add: a b take_add)
        qed
        with s w1 bs have s': "sent (world_of (map_run snd (write_loop fd buffer n tot w))) =
            sent w @ take (nat (t - tot)) (drop (nat tot) buffer)"
          by (simp add: eq)
        from tr w1 have tr': "trace (world_of (map_run snd (write_loop fd buffer n tot w))) =
            trace w @ (SysWrite fd ?bs written # calls)"
          by (simp add: eq)
        from le "1.prems" have "int (nat tot) + written \<le> n" by simp
        with bs have "\<exists>k ret. SysWrite fd ?bs written = SysWrite fd (drop k buffer) ret \<and>
            int k + ret \<le> n"
          by (intro exI [of _ "nat tot"] exI [of _ written]) simp
        with cs have cs': "\<forall>c\<in>set (SysWrite fd ?bs written # calls).
            \<exists>k ret. c = SysWrite fd (drop k buffer) ret \<and> int k + ret \<le> n"
          by simp
        from t False have "tot \<le> t" by simp
        with \<open>t \<le> n\<close> s' tr' cs' fr fin w1 show ?thesis
          by (intro exI [of _ t] exI [of _ "SysWrite fd ?bs written # calls"]) (simp add: eq)
      qed
    qed
  qed
qed

lemma sys_read_Some:
  "sys_read fd count w = Some ((n, buffer), w1) \<Longrightarrow>
   \<exists>r rs. reads w = r # rs \<and>
     (case r of
        RBytes bs \<Rightarrow> buffer = take (nat count) bs \<and> n = int (length buffer) \<and>
                     w1 = w\<lparr>reads := rs, trace := trace w @ [SysRead fd r]\<rparr>
      | RFail e \<Rightarrow> n = - 1 \<and> buffer = [] \<and>
                   w1 = w\<lparr>reads := rs, errno := e, trace := trace w @ [SysRead fd r]\<rparr>)"
  by (auto simp: sys_read_def log_def split: list.splits read_result.splits)

text \<open>
  Claim C8.  After a read of \<open>n > 0\<close> bytes, however the writes are answered and
  wherever the run stops, the bytes the kernel has taken from the inner loop are the first
  \<open>t\<close> bytes of the chunk just read, for a \<open>t\<close> between 0 and \<open>n\<close>, and \<open>t\<close> is the
  loop's \<open>total\<close> when it ends.  The loop makes no call but \<open>write\<close> on the descriptor;
  each call is offered the chunk from some offset \<open>k\<close> to its end, and the offset with
  the call's return value stays within \<open>n\<close>.
\<close>

theorem write_loop_writes_prefix:
  "sys_read fd BUFFER_SIZE w = Some ((n, buffer), w1) \<Longrightarrow> 0 < n \<Longrightarrow>
   \<exists>t calls. 0 \<le> t \<and> t \<le> n \<and> n = int (length buffer) \<and>
     sent (world_of (map_run snd (write_loop fd buffer n 0 w1))) = sent w1 @ take (nat t) buffer \<and>
     trace (world_of (map_run snd (write_loop fd buffer n 0 w1))) = trace w1 @ calls \<and>
     (\<forall>c\<in>set calls. \<exists>k ret. c = SysWrite fd (drop k buffer) ret \<and> int k + ret \<le> n) \<and>
     (\<forall>t' w'. write_loop fd buffer n 0 w1 = Finished (t', w') \<longrightarrow> t' = t)"
proof -
  assume rd: "sys_read fd BUFFER_SIZE w = Some ((n, buffer), w1)" and pos: "0 < n"
  from sys_read_Some [OF rd] obtain r rs where
    c: "case r of
          RBytes bs \<Rightarrow> buffer = take (nat BUFFER_SIZE) bs \<and> n = int (length buffer) \<and>
                       w1 = w\<lparr>reads := rs, trace := trace w @ [SysRead fd r]\<rparr>
        | RFail e \<Rightarrow> n = - 1 \<and> buffer = [] \<and>
                     w1 = w\<lparr>reads := rs, errno := e, trace := trace w @ [SysRead fd r]\<rparr>"
    by blast
  with pos have n: "n = int (length buffer)"
    by (cases r) simp_all
  from write_loop_general [OF n, of 0 fd w1] pos n show ?thesis
    by auto
qed

theorem write_loop_writes_prefix_witness:
  "sys_read 5 BUFFER_SIZE (serving_world\<lparr>reads := [RBytes ''ping''], writes := [3, 0]\<rparr>) =
     Some ((4, ''ping''),
           serving_world\<lparr>reads := [], writes := [3, 0], trace := [SysRead 5 (RBytes ''ping'')]\<rparr>) \<and>
   sent (world_of (map_run snd (write_loop 5 ''ping'' 4 0
     (serving_world\<lparr>reads := [], writes := [3, 0], trace := [SysRead 5 (RBytes ''ping'')]\<rparr>)))) =
     ''pin'' \<and>
   (\<exists>t calls. 0 \<le> t \<and> t \<le> 4 \<and>
     sent (world_of (map_run snd (write_loop 5 ''ping'' 4 0
       (serving_world\<lparr>reads := [], writes := [3, 0], trace := [SysRead 5 (RBytes ''ping'')]\<rparr>)))) =
       take (nat t) ''ping'' \<and>
     (\<forall>c\<in>set calls. \<exists>k ret. c = SysWrite 5 (drop k ''ping'') ret \<and> int k + ret \<le> 4))"
proof -
  let ?w = "serving_world\<lparr>reads := [RBytes ''ping''], writes := [3, 0]\<rparr>"
  let ?w1 = "serving_world\<lparr>reads := [], writes := [3, 0], trace := [SysRead 5 (RBytes ''ping'')]\<rparr>"
  have h: "sys_read 5 BUFFER_SIZE ?w = Some ((4, ''ping''), ?w1)"
    by (simp add: run_simps)
  have e: "sent (world_of (map_run snd (write_loop 5 ''ping'' 4 0 ?w1))) = ''pin''"
    by (simp add: run_simps)
  from write_loop_writes_prefix [OF h] have
    "\<exists>t calls. 0 \<le> t \<and> t \<le> 4 \<and>
     sent (world_of (map_run snd (write_loop 5 ''ping'' 4 0 ?w1))) = take (nat t) ''ping'' \<and>
     (\<forall>c\<in>set calls. \<exists>k ret. c = SysWrite 5 (drop k ''ping'') ret \<and> int k + ret \<le> 4)"
    by (auto simp: serving_world_def fresh_world_def)
  with h e show ?thesis by blast
qed

section \<open>What one run of \<open>handleClient\<close> does\<close>

lemma close_after_del:
  "trace (snd (sys_close fd (snd (sys_epoll_ctl epoll_fd EPOLL_CTL_DEL fd None w)))) =
     trace w @ [SysEpollCtl epoll_fd EPOLL_CTL_DEL fd None, SysClose fd]"
  "fflags (snd (sys_close fd (snd (sys_epoll_ctl epoll_fd EPOLL_CTL_DEL fd None w)))) fd = None"
  "interest (snd (sys_close fd (snd (sys_epoll_ctl epoll_fd EPOLL_CTL_DEL fd None w)))) (epoll_fd, fd) = None"
  by (auto simp: sys_close_def sys_epoll_ctl_def log_def)

lemma handleClient_shape:
  "\<exists>io. (\<forall>c\<in>set io. data_io fd c) \<and>
     ((handleClient epoll_fd fd w = OutOfScript (world_of (handleClient epoll_fd fd w)) \<and>
       trace (world_of (handleClient epoll_fd fd w)) = trace w @ io \<and>
       fflags (world_of (handleClient epoll_fd fd w)) = fflags w \<and>
       interest (world_of (handleClient epoll_fd fd w)) = interest w) \<or>
      (\<exists>e. handleClient epoll_fd fd w = Finished (world_of (handleClient epoll_fd fd w)) \<and>
       \<not> end_of_connection (RFail e) \<and>
       trace (world_of (handleClient epoll_fd fd w)) = trace w @ io @ [SysRead fd (RFail e)] \<and>
       fflags (world_of (handleClient epoll_fd fd w)) = fflags w \<and>
       interest (world_of (handleClient epoll_fd fd w)) = interest w) \<or>
      (\<exists>r. handleClient epoll_fd fd w = Finished (world_of (handleClient epoll_fd fd w)) \<and>
       end_of_connection r \<and>
       trace (world_of (handleClient epoll_fd fd w)) =
         trace w @ io @ [SysRead fd r, SysEpollCtl epoll_fd EPOLL_CTL_DEL fd None, SysClose fd] \<and>
       fflags (world_of (handleClient epoll_fd fd w)) fd = None \<and>
       interest (world_of (handleClient epoll_fd fd w)) (epoll_fd, fd) = None))"
proof (induction epoll_fd fd w rule: handleClient.induct)
  case (1 epoll_fd fd w)
  let ?P = "\<lambda>io w.
     (\<forall>c\<in>set io. data_io fd c) \<and>
     ((handleClient epoll_fd fd w = OutOfScript (world_of (handleClient epoll_fd fd w)) \<and>
       trace (world_of (handleClient epoll_fd fd w)) = trace w @ io \<and>
       fflags (world_of (handleClient epoll_fd fd w)) = fflags w \<and>
       interest (world_of (handleClient epoll_fd fd w)) = interest w) \<or>
      (\<exists>e. handleClient epoll_fd fd w = Finished (world_of (handleClient epoll_fd fd w)) \<and>
       \<not> end_of_connection (RFail e) \<and>
       trace (world_of (handleClient epoll_fd fd w)) = trace w @ io @ [SysRead fd (RFail e)] \<and>
       fflags (world_of (handleClient epoll_fd fd w)) = fflags w \<and>
       interest (world_of (handleClient epoll_fd fd w)) = interest w) \<or>
      (\<exists>r. handleClient epoll_fd fd w = Finished (world_of (handleClient epoll_fd fd w)) \<and>
       end_of_connection r \<and>
       trace (world_of (handleClient epoll_fd fd w)) =
         trace w @ io @ [SysRead fd r, SysEpollCtl epoll_fd EPOLL_CTL_DEL fd None, SysClose fd] \<and>
       fflags (world_of (handleClient epoll_fd fd w)) fd = None \<and>
       interest (world_of (handleClient epoll_fd fd w)) (epoll_fd, fd) = None))"
  show ?case
  proof (cases "sys_read fd BUFFER_SIZE w")
    case None
    then have "handleClient epoll_fd fd w = OutOfScript w"
      by (simp add: handleClient.simps)
    then show ?thesis by (intro exI [of _ "[]"]) simp
  next
    case (Some p)
    obtain n buffer w1 where p: "p = ((n, buffer), w1)" by (cases p) auto
    from Some p have rd: "sys_read fd BUFFER_SIZE w = Some ((n, buffer), w1)" by simp
    from sys_read_Some [OF rd] obtain r rs where
      r: "reads w = r # rs" and
      c: "case r of
            RBytes bs \<Rightarrow> buffer = take (nat BUFFER_SIZE) bs \<and> n = int (length buffer) \<and>
                         w1 = w\<lparr>reads := rs, trace := trace w @ [SysRead fd r]\<rparr>
          | RFail e \<Rightarrow> n = - 1 \<and> buffer = [] \<and>
                       w1 = w\<lparr>reads := rs, errno := e, trace := trace w @ [SysRead fd r]\<rparr>"
      by blast
    show ?thesis
    proof (cases r)
      case (RFail e)
      with c have n: "n = - 1" and w1: "w1 = w\<lparr>reads := rs, errno := e, trace := trace w @ [SysRead fd (RFail e)]\<rparr>"
        by simp_all
      show ?thesis
      proof (cases "e = EAGAIN \<or> e = EWOULDBLOCK")
        case True
        with rd n w1 have "handleClient epoll_fd fd w = Finished w1"
          by (simp add: handleClient.simps)
        with True w1 show ?thesis
          by (intro exI [of _ "[]"]) auto
      next
        case False
        with rd n w1 have "handleClient epoll_fd fd w =
          Finished (snd (sys_close fd (snd (sys_epoll_ctl epoll_fd EPOLL_CTL_DEL fd None w1))))"
          by (simp add: handleClient.simps)
        moreover from False have "end_of_connection (RFail e)" by simp
        ultimately show ?thesis using w1
          by (intro exI [of _ "[]"] conjI disjI2) (auto simp: close_after_del)
      qed
    next
      case (RBytes bs)
      with c have buf: "buffer = take (nat BUFFER_SIZE) bs" and n: "n = int (length buffer)"
        and w1: "w1 = w\<lparr>reads := rs, trace := trace w @ [SysRead fd (RBytes bs)]\<rparr>"
        by simp_all
      show ?thesis
      proof (cases "bs = []")
        case True
        with buf n have "n = 0" by simp
        with rd have "handleClient epoll_fd fd w =
          Finished (snd (sys_close fd (snd (sys_epoll_ctl epoll_fd EPOLL_CTL_DEL fd None w1))))"
          by (simp add: handleClient.simps)
        moreover from True have "end_of_connection (RBytes bs)" by simp
        ultimately show ?thesis using w1
          by (intro exI [of _ "[]"] conjI disjI2) (auto simp: close_after_del)
      next
        case False
        with buf n have pos: "0 < n" by (simp add: BUFFER_SIZE_def)
        from write_loop_general [OF n, of 0 fd w1] pos obtain t calls where
          tr: "trace (world_of (map_run snd (write_loop fd buffer n 0 w1))) = trace w1 @ calls" and
          cs: "\<forall>c\<in>set calls. \<exists>k ret. c = SysWrite fd (drop k buffer) ret \<and> int k + ret \<le> n" and
          fr: "fflags (world_of (map_run snd (write_loop fd buffer n 0 w1))) = fflags w1"
              "interest (world_of (map_run snd (write_loop fd buffer n 0 w1))) = interest w1"
          by auto
        from cs have cs': "\<forall>c\<in>set (SysRead fd (RBytes bs) # calls). data_io fd c"
          using False by auto
        show ?thesis
        proof (cases "write_loop fd buffer n 0 w1")
          case (OutOfScript w2)
          with rd pos have "handleClient epoll_fd fd w = OutOfScript w2"
            by (simp add: handleClient.simps)
          with OutOfScript tr fr w1 cs' show ?thesis
            by (intro exI [of _ "SysRead fd (RBytes bs) # calls"]) simp
        next
          case (Finished q)
          obtain tot w2 where q: "q = (tot, w2)" by (cases q)
          with Finished rd pos have eq: "handleClient epoll_fd fd w = handleClient epoll_fd fd w2"
            by (simp add: handleClient.simps)
          from Finished q tr fr w1 have w2:
            "trace w2 = trace w @ SysRead fd (RBytes bs) # calls"
            "fflags w2 = fflags w" "interest w2 = interest w"
            by simp_all
          from "1.IH" [OF Some p [symmetric] refl pos Finished q [symmetric]]
          obtain io where io: "?P io w2" ..
          let ?io = "SysRead fd (RBytes bs) # calls @ io"
          from io cs' have "\<forall>c\<in>set ?io. data_io fd c" by auto
          with io w2 show ?thesis
            by (intro exI [of _ ?io]) (simp add: eq)
        qed
      qed
    qed
  qed
qed

lemma unique_position:
  "xs @ a # ys = pre @ x # post \<Longrightarrow> x \<notin> set xs \<Longrightarrow> x \<notin> set ys \<Longrightarrow>
   x = a \<and> pre = xs \<and> post = ys"
  by (auto simp: append_eq_append_conv2 append_eq_Cons_conv Cons_eq_append_conv)

text \<open>
  Claim C4.  Take any run of \<open>handleClient\<close> and any read in it that ends the
  connection: it returned 0, or failed with an error other than
  \<open>EAGAIN\<close>/\<open>EWOULDBLOCK\<close>.  The calls after that read are exactly one
  \<open>epoll_ctl(epoll_fd, EPOLL_CTL_DEL, fd, nullptr)\<close> and then one \<open>close(fd)\<close>, and
  \<open>handleClient\<close> returns; the calls before it are reads of data and writes only, so
  this run deregisters once and closes once.  Afterwards the descriptor is neither open
  nor in the interest list.
\<close>

theorem handleClient_end_of_stream:
  assumes tr: "trace (world_of (handleClient epoll_fd fd w)) = trace w @ pre @ SysRead fd r # post"
    and r: "end_of_connection r"
  shows "post = [SysEpollCtl epoll_fd EPOLL_CTL_DEL fd None, SysClose fd] \<and>
         (\<forall>c\<in>set pre. data_io fd c) \<and>
         handleClient epoll_fd fd w = Finished (world_of (handleClient epoll_fd fd w)) \<and>
         fflags (world_of (handleClient epoll_fd fd w)) fd = None \<and>
         interest (world_of (handleClient epoll_fd fd w)) (epoll_fd, fd) = None"
proof -
  let ?w' = "world_of (handleClient epoll_fd fd w)"
  let ?x = "SysRead fd r"
  from r have nd: "\<not> data_io fd ?x" by (cases r) auto
  from handleClient_shape [of fd epoll_fd w] obtain io where
    io: "\<forall>c\<in>set io. data_io fd c" and
    sh: "(handleClient epoll_fd fd w = OutOfScript ?w' \<and> trace ?w' = trace w @ io \<and>
          fflags ?w' = fflags w \<and> interest ?w' = interest w) \<or>
         (\<exists>e. handleClient epoll_fd fd w = Finished ?w' \<and> \<not> end_of_connection (RFail e) \<and>
              trace ?w' = trace w @ io @ [SysRead fd (RFail e)] \<and>
              fflags ?w' = fflags w \<and> interest ?w' = interest w) \<or>
         (\<exists>r. handleClient epoll_fd fd w = Finished ?w' \<and> end_of_connection r \<and>
              trace ?w' = trace w @ io @
                [SysRead fd r, SysEpollCtl epoll_fd EPOLL_CTL_DEL fd None, SysClose fd] \<and>
              fflags ?w' fd = None \<and> interest ?w' (epoll_fd, fd) = None)"
    by blast
  from io nd have nin: "?x \<notin> set io" by auto
  from sh show ?thesis
  proof (elim disjE exE conjE)
    assume "trace ?w' = trace w @ io"
    with tr have "io = pre @ ?x # post" by simp
    with nin show ?thesis by simp
  next
    fix e
    assume e: "\<not> end_of_connection (RFail e)"
      and "trace ?w' = trace w @ io @ [SysRead fd (RFail e)]"
    with tr have "io @ SysRead fd (RFail e) # [] = pre @ ?x # post" by simp
    from unique_position [OF this nin] have "?x = SysRead fd (RFail e)" by simp
    with r e show ?thesis by auto
  next
    fix r'
    assume fin: "handleClient epoll_fd fd w = Finished ?w'"
      and st: "fflags ?w' fd = None" "interest ?w' (epoll_fd, fd) = None"
      and "trace ?w' = trace w @ io @
             [SysRead fd r', SysEpollCtl epoll_fd EPOLL_CTL_DEL fd None, SysClose fd]"
    with tr have "io @ SysRead fd r' # [SysEpollCtl epoll_fd EPOLL_CTL_DEL fd None, SysClose fd] =
      pre @ ?x # post" by simp
    from unique_position [OF this nin] have
      "pre = io" "post = [SysEpollCtl epoll_fd EPOLL_CTL_DEL fd None, SysClose fd]"
      by simp_all
    with io fin st show ?thesis by simp
  qed
qed

theorem handleClient_end_of_stream_witness:
  "trace (world_of (handleClient 3 5 (serving_world\<lparr>reads := [RBytes ''ping'', RBytes []], writes := [4]\<rparr>))) =
     trace (serving_world\<lparr>reads := [RBytes ''ping'', RBytes []], writes := [4]\<rparr>) @
     [SysRead 5 (RBytes ''ping''), SysWrite 5 ''ping'' 4] @ SysRead 5 (RBytes []) #
     [SysEpollCtl 3 EPOLL_CTL_DEL 5 None, SysClose 5] \<and>
   end_of_connection (RBytes []) \<and>
   fflags (world_of (handleClient 3 5 (serving_world\<lparr>reads := [RBytes ''ping'', RBytes []], writes := [4]\<rparr>))) 5 = None \<and>
   interest (world_of (handleClient 3 5 (serving_world\<lparr>reads := [RBytes ''ping'', RBytes []], writes := [4]\<rparr>))) (3, 5) = None"
proof -
  let ?w = "serving_world\<lparr>reads := [RBytes ''ping'', RBytes []], writes := [4]\<rparr>"
  have tr: "trace (world_of (handleClient 3 5 ?w)) =
     trace ?w @ [SysRead 5 (RBytes ''ping''), SysWrite 5 ''ping'' 4] @ SysRead 5 (RBytes []) #
     [SysEpollCtl 3 EPOLL_CTL_DEL 5 None, SysClose 5]"
    by (simp add: run_simps)
  have e: "end_of_connection (RBytes [])" by simp
  from handleClient_end_of_stream [OF tr e] tr e show ?thesis by blast
qed

text \<open>
  Claim C5.  Take any run of \<open>handleClient\<close> and any read in it that fails with
  \<open>EAGAIN\<close> or \<open>EWOULDBLOCK\<close>.  It is the last call of the run and \<open>handleClient\<close>
  returns.  The calls before it are reads of data and writes only: there is no
  \<open>epoll_ctl\<close> and no \<open>close\<close>, the table of open descriptors and the interest list are
  what they were, so a descriptor that was open and registered still is.
\<close>

theorem handleClient_would_block:
  assumes tr: "trace (world_of (handleClient epoll_fd fd w)) =
                 trace w @ pre @ SysRead fd (RFail e) # post"
    and e: "e = EAGAIN \<or> e = EWOULDBLOCK"
  shows "post = [] \<and>
         (\<forall>c\<in>set pre. data_io fd c) \<and>
         handleClient epoll_fd fd w = Finished (world_of (handleClient epoll_fd fd w)) \<and>
         fflags (world_of (handleClient epoll_fd fd w)) = fflags w \<and>
         interest (world_of (handleClient epoll_fd fd w)) = interest w"
proof -
  let ?w' = "world_of (handleClient epoll_fd fd w)"
  let ?x = "SysRead fd (RFail e)"
  have nd: "\<not> data_io fd ?x" by simp
  from handleClient_shape [of fd epoll_fd w] obtain io where
    io: "\<forall>c\<in>set io. data_io fd c" and
    sh: "(handleClient epoll_fd fd w = OutOfScript ?w' \<and> trace ?w' = trace w @ io \<and>
          fflags ?w' = fflags w \<and> interest ?w' = interest w) \<or>
         (\<exists>e. handleClient epoll_fd fd w = Finished ?w' \<and> \<not> end_of_connection (RFail e) \<and>
              trace ?w' = trace w @ io @ [SysRead fd (RFail e)] \<and>
              fflags ?w' = fflags w \<and> interest ?w' = interest w) \<or>
         (\<exists>r. handleClient epoll_fd fd w = Finished ?w' \<and> end_of_connection r \<and>
              trace ?w' = trace w @ io @
                [SysRead fd r, SysEpollCtl epoll_fd EPOLL_CTL_DEL fd None, SysClose fd] \<and>
              fflags ?w' fd = None \<and> interest ?w' (epoll_fd, fd) = None)"
    by blast
  from io nd have nin: "?x \<notin> set io" by auto
  from sh show ?thesis
  proof (elim disjE exE conjE)
    assume "trace ?w' = trace w @ io"
    with tr have "io = pre @ ?x # post" by simp
    with nin show ?thesis by simp
  next
    fix e'
    assume fin: "handleClient epoll_fd fd w = Finished ?w'"
      and st: "fflags ?w' = fflags w" "interest ?w' = interest w"
      and "trace ?w' = trace w @ io @ [SysRead fd (RFail e')]"
    with tr have "io @ SysRead fd (RFail e') # [] = pre @ ?x # post" by simp
    from unique_position [OF this nin] have "pre = io" "post = []" by simp_all
    with io fin st show ?thesis by simp
  next
    fix r'
    assume r': "end_of_connection r'"
      and "trace ?w' = trace w @ io @
             [SysRead fd r', SysEpollCtl epoll_fd EPOLL_CTL_DEL fd None, SysClose fd]"
    with tr have "io @ SysRead fd r' # [SysEpollCtl epoll_fd EPOLL_CTL_DEL fd None, SysClose fd] =
      pre @ ?x # post" by simp
    from unique_position [OF this nin] have "r' = RFail e" by simp
    with r' e show ?thesis by auto
  qed
qed

theorem handleClient_would_block_witness:
  "trace (world_of (handleClient 3 5 (serving_world\<lparr>reads := [RBytes ''ping'', RFail 11], writes := [4]\<rparr>))) =
     trace (serving_world\<lparr>reads := [RBytes ''ping'', RFail 11], writes := [4]\<rparr>) @
     [SysRead 5 (RBytes ''ping''), SysWrite 5 ''ping'' 4] @ SysRead 5 (RFail 11) # [] \<and>
   (11 = EAGAIN \<or> 11 = EWOULDBLOCK) \<and>
   fflags (world_of (handleClient 3 5 (serving_world\<lparr>reads := [RBytes ''ping'', RFail 11], writes := [4]\<rparr>))) 5 = Some 2050 \<and>
   interest (world_of (handleClient 3 5 (serving_world\<lparr>reads := [RBytes ''ping'', RFail 11], writes := [4]\<rparr>))) (3, 5) = Some (EPOLLIN OR EPOLLET)"
proof -
  let ?w = "serving_world\<lparr>reads := [RBytes ''ping'', RFail 11], writes := [4]\<rparr>"
  have tr: "trace (world_of (handleClient 3 5 ?w)) =
     trace ?w @ [SysRead 5 (RBytes ''ping''), SysWrite 5 ''ping'' 4] @ SysRead 5 (RFail 11) # []"
    by (simp add: run_simps)
  have e: "11 = EAGAIN \<or> 11 = EWOULDBLOCK" by (simp add: EAGAIN_def)
  from handleClient_would_block [OF tr e] have
    "fflags (world_of (handleClient 3 5 ?w)) = fflags ?w"
    "interest (world_of (handleClient 3 5 ?w)) = interest ?w"
    by simp_all
  then have "fflags (world_of (handleClient 3 5 ?w)) 5 = Some 2050"
    "interest (world_of (handleClient 3 5 ?w)) (3, 5) = Some (EPOLLIN OR EPOLLET)"
    by (simp_all add: serving_world_def fresh_world_def)
  with tr e show ?thesis by blast
qed

section \<open>One worker alone\<close>

text \<open>
  When one worker takes the steps and no other thread's step falls in between, a task
  is a call of \<open>handleClient\<close>, and the tasks in the queue are served as
  \<open>handleClient_times\<close> says, one after the other.
\<close>

lemma sys_write_tasks:
  "sys_write fd bs w = Some (ret, w1) \<Longrightarrow>
   sys_write fd bs (w\<lparr>tasks := q\<rparr>) = Some (ret, w1\<lparr>tasks := q\<rparr>)"
  by (auto simp: sys_write_def log_def Let_def split: list.splits)

lemma sys_read_tasks:
  "sys_read fd count w = Some (res, w1) \<Longrightarrow>
   sys_read fd count (w\<lparr>tasks := q\<rparr>) = Some (res, w1\<lparr>tasks := q\<rparr>) \<and> errno (w1\<lparr>tasks := q\<rparr>) = errno w1"
  by (auto simp: sys_read_def log_def split: list.splits read_result.splits)

lemma sys_epoll_ctl_tasks:
  "snd (sys_epoll_ctl epfd op fd ev (w\<lparr>tasks := q\<rparr>)) =
   (snd (sys_epoll_ctl epfd op fd ev w))\<lparr>tasks := q\<rparr>"
  by (auto simp: sys_epoll_ctl_def log_def split: epoll_op.splits option.splits)

lemma sys_close_tasks:
  "snd (sys_close fd (w\<lparr>tasks := q\<rparr>)) = (snd (sys_close fd w))\<lparr>tasks := q\<rparr>"
  by (auto simp: sys_close_def log_def split_def cong del: if_weak_cong)

lemma close_after_del_tasks:
  "snd (sys_close fd (snd (sys_epoll_ctl epoll_fd EPOLL_CTL_DEL fd None (w\<lparr>tasks := q\<rparr>)))) =
   (snd (sys_close fd (snd (sys_epoll_ctl epoll_fd EPOLL_CTL_DEL fd None w))))\<lparr>tasks := q\<rparr>"
  by (simp add: sys_epoll_ctl_tasks sys_close_tasks)

lemma write_loop_tasks:
  "write_loop fd buffer n tot w = Finished (t, w') \<Longrightarrow>
   write_loop fd buffer n tot (w\<lparr>tasks := q\<rparr>) = Finished (t, w'\<lparr>tasks := q\<rparr>)"
proof (induction fd buffer n tot w rule: write_loop.induct)
  case (1 fd buffer n tot w)
  show ?case
  proof (cases "tot < n")
    case False
    with "1.prems" show ?thesis by (simp add: write_loop.simps)
  next
    case True
    let ?bs = "take (nat (n - tot)) (drop (nat tot) buffer)"
    from True "1.prems" obtain written w1 where sw: "sys_write fd ?bs w = Some (written, w1)"
      by (subst (asm) write_loop.simps) (auto split: option.splits)
    note sq = sys_write_tasks [OF sw, of q]
    show ?thesis
    proof (cases "written \<le> 0")
      case le: True
      with True "1.prems" sw have "t = tot" "w' = w1"
        by (subst (asm) write_loop.simps, simp)+
      with True le sq show ?thesis by (subst write_loop.simps) simp
    next
      case gt: False
      with True "1.prems" sw have "write_loop fd buffer n (tot + written) w1 = Finished (t, w')"
        by (subst (asm) write_loop.simps) simp
      from "1.IH" [OF True sw refl gt this] True gt sq show ?thesis
        by (subst write_loop.simps) simp
    qed
  qed
qed

lemma handleClient_tasks:
  "handleClient epoll_fd fd w = Finished w' \<Longrightarrow>
   handleClient epoll_fd fd (w\<lparr>tasks := q\<rparr>) = Finished (w'\<lparr>tasks := q\<rparr>)"
proof (induction epoll_fd fd w rule: handleClient.induct)
  case (1 epoll_fd fd w)
  from "1.prems" obtain n buffer w1 where rd: "sys_read fd BUFFER_SIZE w = Some ((n, buffer), w1)"
    by (subst (asm) handleClient.simps) (auto split: option.splits)
  from sys_read_tasks [OF rd, of q] have
    rq: "sys_read fd BUFFER_SIZE (w\<lparr>tasks := q\<rparr>) = Some ((n, buffer), w1\<lparr>tasks := q\<rparr>)" and
    eq: "errno (w1\<lparr>tasks := q\<rparr>) = errno w1"
    by simp_all
  show ?case
  proof (cases "0 < n")
    case True
    with "1.prems" rd obtain tot w2 where
      wl: "write_loop fd buffer n 0 w1 = Finished (tot, w2)" and
      hc: "handleClient epoll_fd fd w2 = Finished w'"
      by (subst (asm) handleClient.simps) (auto split: run.splits)
    from "1.IH" [OF rd refl refl True wl refl hc] write_loop_tasks [OF wl, of q] rq True
    show ?thesis by (subst handleClient.simps) simp
  next
    case False
    with "1.prems" rd have
      "w' = (if n = 0 then snd (sys_close fd (snd (sys_epoll_ctl epoll_fd EPOLL_CTL_DEL fd None w1)))
             else if errno w1 = EAGAIN \<or> errno w1 = EWOULDBLOCK then w1
             else snd (sys_close fd (snd (sys_epoll_ctl epoll_fd EPOLL_CTL_DEL fd None w1))))"
      by (subst (asm) handleClient.simps) (auto split: if_splits)
    with False rq eq show ?thesis
      by (subst handleClient.simps) (simp add: close_after_del_tasks del: world.simps)
  qed
qed

lemma handleClient_times_tasks:
  "handleClient_times m epoll_fd fd w = Finished w' \<Longrightarrow>
   handleClient_times m epoll_fd fd (w\<lparr>tasks := q\<rparr>) = Finished (w'\<lparr>tasks := q\<rparr>)"
proof (induction m arbitrary: w)
  case 0
  then show ?case by simp
next
  case (Suc m)
  from Suc.prems obtain w1 where
    a: "handleClient epoll_fd fd w = Finished w1" and
    b: "handleClient_times m epoll_fd fd w1 = Finished w'"
    by (auto split: run.splits)
  from handleClient_tasks [OF a, of q] Suc.IH [OF b] show ?case by simp
qed

lemma pool_run_write_loop:
  "tot < n \<Longrightarrow> write_loop fd buffer n tot w = Finished (t, w') \<Longrightarrow> i < length ws \<Longrightarrow>
   \<exists>k. \<forall>acts. pool_run (replicate k (Work i) @ acts)
                  (ws[i := Busy epoll_fd fd (AtWrite buffer n tot)]) w =
                pool_run acts (ws[i := Busy epoll_fd fd AtRead]) w'"
proof (induction fd buffer n tot w rule: write_loop.induct)
  case (1 fd buffer n tot w)
  let ?bs = "take (nat (n - tot)) (drop (nat tot) buffer)"
  from "1.prems" obtain written w1 where sw: "sys_write fd ?bs w = Some (written, w1)"
    by (subst (asm) write_loop.simps) (auto split: option.splits)
  show ?case
  proof (cases "written \<le> 0 \<or> \<not> tot + written < n")
    case True
    with "1.prems" sw have "w' = w1"
      by (subst (asm) write_loop.simps, subst (asm) write_loop.simps) (auto split: if_splits)
    with sw True "1.prems"(3) have
      "\<forall>acts. pool_run (replicate 1 (Work i) @ acts)
                  (ws[i := Busy epoll_fd fd (AtWrite buffer n tot)]) w =
                pool_run acts (ws[i := Busy epoll_fd fd AtRead]) w'"
      by auto
    then show ?thesis by blast
  next
    case False
    then have gt: "\<not> written \<le> 0" and lt: "tot + written < n" by simp_all
    with "1.prems" sw have
      wl: "write_loop fd buffer n (tot + written) w1 = Finished (t, w')"
      by (subst (asm) write_loop.simps) simp
    from "1.IH" [OF "1.prems"(1) sw refl gt lt wl "1.prems"(3)] obtain k where
      k: "\<forall>acts. pool_run (replicate k (Work i) @ acts)
                  (ws[i := Busy epoll_fd fd (AtWrite buffer n (tot + written))]) w1 =
                pool_run acts (ws[i := Busy epoll_fd fd AtRead]) w'"
      by blast
    with sw gt lt "1.prems"(3) have
      "\<forall>acts. pool_run (replicate (Suc k) (Work i) @ acts)
                  (ws[i := Busy epoll_fd fd (AtWrite buffer n tot)]) w =
                pool_run acts (ws[i := Busy epoll_fd fd AtRead]) w'"
      by simp
    then show ?thesis by blast
  qed
qed

lemma pool_run_handleClient:
  "handleClient epoll_fd fd w = Finished w' \<Longrightarrow> i < length ws \<Longrightarrow>
   \<exists>k. \<forall>acts. pool_run (replicate k (Work i) @ acts) (ws[i := Busy epoll_fd fd AtRead]) w =
                pool_run acts (ws[i := Idle]) w'"
proof (induction epoll_fd fd w rule: handleClient.induct)
  case (1 epoll_fd fd w)
  from "1.prems" obtain n buffer w1 where rd: "sys_read fd BUFFER_SIZE w = Some ((n, buffer), w1)"
    by (subst (asm) handleClient.simps) (auto split: option.splits)
  show ?case
  proof (cases "0 < n")
    case True
    with "1.prems" rd obtain tot w2 where
      wl: "write_loop fd buffer n 0 w1 = Finished (tot, w2)" and
      hc: "handleClient epoll_fd fd w2 = Finished w'"
      by (subst (asm) handleClient.simps) (auto split: run.splits)
    from pool_run_write_loop [OF True wl "1.prems"(2), of epoll_fd] obtain k1 where
      k1: "\<forall>acts. pool_run (replicate k1 (Work i) @ acts)
                  (ws[i := Busy epoll_fd fd (AtWrite buffer n 0)]) w1 =
                pool_run acts (ws[i := Busy epoll_fd fd AtRead]) w2"
      by blast
    from "1.IH" [OF rd refl refl True wl refl hc "1.prems"(2)] obtain k2 where
      k2: "\<forall>acts. pool_run (replicate k2 (Work i) @ acts) (ws[i := Busy epoll_fd fd AtRead]) w2 =
                pool_run acts (ws[i := Idle]) w'"
      by blast
    have "\<forall>acts. pool_run (replicate (Suc (k1 + k2)) (Work i) @ acts)
                  (ws[i := Busy epoll_fd fd AtRead]) w =
                pool_run acts (ws[i := Idle]) w'"
    proof
      fix acts
      have "pool_run (replicate (Suc (k1 + k2)) (Work i) @ acts)
              (ws[i := Busy epoll_fd fd AtRead]) w =
            pool_run (replicate k1 (Work i) @ replicate k2 (Work i) @ acts)
              (ws[i := Busy epoll_fd fd (AtWrite buffer n 0)]) w1"
        using rd True "1.prems"(2) by (simp add: replicate_add)
      also have "\<dots> = pool_run (replicate k2 (Work i) @ acts) (ws[i := Busy epoll_fd fd AtRead]) w2"
        using k1 by blast
      also have "\<dots> = pool_run acts (ws[i := Idle]) w'" using k2 by blast
      finally show "pool_run (replicate (Suc (k1 + k2)) (Work i) @ acts)
              (ws[i := Busy epoll_fd fd AtRead]) w = pool_run acts (ws[i := Idle]) w'" .
    qed
    then show ?thesis by blast
  next
    case False
    show ?thesis
    proof (cases "n < 0 \<and> (errno w1 = EAGAIN \<or> errno w1 = EWOULDBLOCK)")
      case True
      with "1.prems" rd have "w' = w1" by (subst (asm) handleClient.simps) auto
      with rd True "1.prems"(2) have
        "\<forall>acts. pool_run (replicate 1 (Work i) @ acts) (ws[i := Busy epoll_fd fd AtRead]) w =
                pool_run acts (ws[i := Idle]) w'"
        by auto
      then show ?thesis by blast
    next
      case nb: False
      with "1.prems" rd False have
        "w' = snd (sys_close fd (snd (sys_epoll_ctl epoll_fd EPOLL_CTL_DEL fd None w1)))"
        by (subst (asm) handleClient.simps) (auto split: if_splits)
      with rd False nb "1.prems"(2) have
        "\<forall>acts. pool_run (replicate 3 (Work i) @ acts) (ws[i := Busy epoll_fd fd AtRead]) w =
                pool_run acts (ws[i := Idle]) w'"
        by (auto simp: numeral_3_eq_3)
      then show ?thesis by blast
    qed
  qed
qed

lemma pool_serves_in_turn:
  "handleClient_times m epoll_fd fd w = Finished w' \<Longrightarrow>
   tasks w = replicate m (epoll_fd, fd) @ q \<Longrightarrow> i < length ws \<Longrightarrow> ws ! i = Idle \<Longrightarrow>
   \<exists>k. pool_run (replicate k (Work i)) ws w = Finished (ws, w'\<lparr>tasks := q\<rparr>)"
proof (induction m arbitrary: w w')
  case 0
  then have "w' = w" "tasks w = q" by simp_all
  then have "pool_run (replicate 0 (Work i)) ws w = Finished (ws, w'\<lparr>tasks := q\<rparr>)" by simp
  then show ?case by blast
next
  case (Suc m)
  let ?q1 = "replicate m (epoll_fd, fd) @ q"
  from Suc.prems(1) obtain w1 where
    a: "handleClient epoll_fd fd w = Finished w1" and
    b: "handleClient_times m epoll_fd fd w1 = Finished w'"
    by (auto split: run.splits)
  from Suc.prems(2) have tq: "tasks w = (epoll_fd, fd) # ?q1" by simp
  from handleClient_tasks [OF a, of ?q1] have
    a': "handleClient epoll_fd fd (w\<lparr>tasks := ?q1\<rparr>) = Finished (w1\<lparr>tasks := ?q1\<rparr>)" .
  from pool_run_handleClient [OF a' Suc.prems(3)] obtain k1 where
    k1: "\<forall>acts. pool_run (replicate k1 (Work i) @ acts) (ws[i := Busy epoll_fd fd AtRead])
                  (w\<lparr>tasks := ?q1\<rparr>) =
                pool_run acts (ws[i := Idle]) (w1\<lparr>tasks := ?q1\<rparr>)"
    by blast
  from handleClient_times_tasks [OF b, of ?q1] have
    b': "handleClient_times m epoll_fd fd (w1\<lparr>tasks := ?q1\<rparr>) = Finished (w'\<lparr>tasks := ?q1\<rparr>)" .
  from Suc.IH [OF b' _ Suc.prems(3) Suc.prems(4)] obtain k2 where
    k2: "pool_run (replicate k2 (Work i)) ws (w1\<lparr>tasks := ?q1\<rparr>) =
           Finished (ws, w'\<lparr>tasks := ?q1, tasks := q\<rparr>)"
    by auto
  from Suc.prems(4) have id: "ws[i := Idle] = ws" by (metis list_update_id)
  have "pool_run (replicate (Suc (k1 + k2)) (Work i)) ws w =
        pool_run (replicate k1 (Work i) @ replicate k2 (Work i)) (ws[i := Busy epoll_fd fd AtRead])
          (w\<lparr>tasks := ?q1\<rparr>)"
    using tq Suc.prems(3) Suc.prems(4) by (simp add: replicate_add)
  also have "\<dots> = pool_run (replicate k2 (Work i)) (ws[i := Idle]) (w1\<lparr>tasks := ?q1\<rparr>)"
    using k1 by blast
  also have "\<dots> = Finished (ws, w'\<lparr>tasks := q\<rparr>)" using k2 id by simp
  finally show ?case by blast
qed

section \<open>Calls that do not overlap\<close>

text \<open>
  Whatever the order of the steps, and whichever workers take them, if no two calls of
  \<open>handleClient\<close> overlap then the pool leaves the connection as \<open>handleClient_times\<close>
  does: \<open>pool_serial_run\<close>.  The reactor may submit tasks at any moment, also in the
  middle of a call.
\<close>

lemma alike_refl [simp]: "alike w w" by (simp add: alike_def)
lemma alike_trans: "alike a b \<Longrightarrow> alike b c \<Longrightarrow> alike a c" by (simp add: alike_def)
lemma alike_sym: "alike a b \<Longrightarrow> alike b a" by (simp add: alike_def)
lemma alike_tasks [simp]: "alike w (w\<lparr>tasks := q\<rparr>)" by (simp add: alike_def)
lemma alike_enqueue [simp]: "alike w (enqueue e fd w)" by (simp add: alike_def enqueue_def log_def)

lemma sys_read_alike:
  "alike w v \<Longrightarrow> sys_read fd count w = Some (res, w1) \<Longrightarrow>
   \<exists>v1. sys_read fd count v = Some (res, v1) \<and> alike w1 v1"
  by (auto simp: alike_def sys_read_def log_def split: list.splits read_result.splits)

lemma sys_write_alike:
  "alike w v \<Longrightarrow> sys_write fd bs w = Some (ret, w1) \<Longrightarrow>
   \<exists>v1. sys_write fd bs v = Some (ret, v1) \<and> alike w1 v1"
  by (auto simp: alike_def sys_write_def log_def Let_def split: list.splits)

lemma sys_epoll_ctl_alike:
  "alike w v \<Longrightarrow> alike (snd (sys_epoll_ctl epfd op fd ev w)) (snd (sys_epoll_ctl epfd op fd ev v))"
  by (auto simp: alike_def sys_epoll_ctl_def log_def split: epoll_op.splits option.splits)

lemma sys_close_alike:
  "alike w v \<Longrightarrow> alike (snd (sys_close fd w)) (snd (sys_close fd v))"
  by (auto simp: alike_def sys_close_def log_def)

lemma write_loop_alike:
  "write_loop fd buffer n tot w = Finished (t, w') \<Longrightarrow> alike w v \<Longrightarrow>
   \<exists>v'. write_loop fd buffer n tot v = Finished (t, v') \<and> alike w' v'"
proof (induction fd buffer n tot w arbitrary: v rule: write_loop.induct)
  case (1 fd buffer n tot w)
  show ?case
  proof (cases "tot < n")
    case False
    with "1.prems" show ?thesis by (simp add: write_loop.simps)
  next
    case True
    let ?bs = "take (nat (n - tot)) (drop (nat tot) buffer)"
    from True "1.prems" obtain written w1 where sw: "sys_write fd ?bs w = Some (written, w1)"
      by (subst (asm) write_loop.simps) (auto split: option.splits)
    from sys_write_alike [OF "1.prems"(2) sw] obtain v1 where
      sv: "sys_write fd ?bs v = Some (written, v1)" and al: "alike w1 v1" by blast
    show ?thesis
    proof (cases "written \<le> 0")
      case le: True
      with True "1.prems" sw have "t = tot" "w' = w1"
        by (subst (asm) write_loop.simps, simp)+
      with True le sv al show ?thesis by (subst write_loop.simps) simp
    next
      case gt: False
      with True "1.prems" sw have "write_loop fd buffer n (tot + written) w1 = Finished (t, w')"
        by (subst (asm) write_loop.simps) simp
      from "1.IH" [OF True sw refl gt this al] True gt sv show ?thesis
        by (subst write_loop.simps) simp
    qed
  qed
qed

lemma handleClient_alike:
  "handleClient epoll_fd fd w = Finished w' \<Longrightarrow> alike w v \<Longrightarrow>
   \<exists>v'. handleClient epoll_fd fd v = Finished v' \<and> alike w' v'"
proof (induction epoll_fd fd w arbitrary: v rule: handleClient.induct)
  case (1 epoll_fd fd w)
  from "1.prems" obtain n buffer w1 where rd: "sys_read fd BUFFER_SIZE w = Some ((n, buffer), w1)"
    by (subst (asm) handleClient.simps) (auto split: option.splits)
  from sys_read_alike [OF "1.prems"(2) rd] obtain v1 where
    rv: "sys_read fd BUFFER_SIZE v = Some ((n, buffer), v1)" and al: "alike w1 v1" by blast
  from al have er: "errno v1 = errno w1" by (simp add: alike_def)
  show ?case
  proof (cases "0 < n")
    case True
    with "1.prems" rd obtain tot w2 where
      wl: "write_loop fd buffer n 0 w1 = Finished (tot, w2)" and
      hc: "handleClient epoll_fd fd w2 = Finished w'"
      by (subst (asm) handleClient.simps) (auto split: run.splits)
    from write_loop_alike [OF wl al] obtain v2 where
      wv: "write_loop fd buffer n 0 v1 = Finished (tot, v2)" and al2: "alike w2 v2" by blast
    from "1.IH" [OF rd refl refl True wl refl hc al2] wv rv True
    show ?thesis by (subst handleClient.simps) simp
  next
    case False
    let ?cl = "\<lambda>x. snd (sys_close fd (snd (sys_epoll_ctl epoll_fd EPOLL_CTL_DEL fd None x)))"
    from al have cl: "alike (?cl w1) (?cl v1)"
      by (intro sys_close_alike sys_epoll_ctl_alike)
    from False "1.prems" rd have
      w': "w' = (if n = 0 then ?cl w1
             else if errno w1 = EAGAIN \<or> errno w1 = EWOULDBLOCK then w1 else ?cl w1)"
      by (subst (asm) handleClient.simps) (auto split: if_splits)
    from False rv er have
      "handleClient epoll_fd fd v = Finished (if n = 0 then ?cl v1
             else if errno w1 = EAGAIN \<or> errno w1 = EWOULDBLOCK then v1 else ?cl v1)"
      by (subst handleClient.simps) simp
    with w' al cl show ?thesis by auto
  qed
qed

lemma handleClient_times_alike:
  "handleClient_times m epoll_fd fd w = Finished w' \<Longrightarrow> alike w v \<Longrightarrow>
   \<exists>v'. handleClient_times m epoll_fd fd v = Finished v' \<and> alike w' v'"
proof (induction m arbitrary: w v)
  case 0
  then show ?case by simp
next
  case (Suc m)
  from Suc.prems obtain w1 where
    a: "handleClient epoll_fd fd w = Finished w1" and
    b: "handleClient_times m epoll_fd fd w1 = Finished w'"
    by (auto split: run.splits)
  from handleClient_alike [OF a Suc.prems(2)] obtain v1 where
    "handleClient epoll_fd fd v = Finished v1" "alike w1 v1" by blast
  with Suc.IH [OF b] show ?case by auto
qed

lemma complete_alike:
  "complete epoll_fd fd p w = Finished w' \<Longrightarrow> alike w v \<Longrightarrow>
   \<exists>v'. complete epoll_fd fd p v = Finished v' \<and> alike w' v'"
proof (cases p)
  case AtRead
  assume "complete epoll_fd fd p w = Finished w'" "alike w v"
  with AtRead show ?thesis by (simp add: handleClient_alike)
next
  case (AtWrite buffer n tot)
  assume c: "complete epoll_fd fd p w = Finished w'" and al: "alike w v"
  with AtWrite obtain t w2 where
    wl: "write_loop fd buffer n tot w = Finished (t, w2)" and
    hc: "handleClient epoll_fd fd w2 = Finished w'"
    by (auto split: run.splits)
  from write_loop_alike [OF wl al] obtain v2 where
    wv: "write_loop fd buffer n tot v = Finished (t, v2)" and al2: "alike w2 v2" by blast
  from handleClient_alike [OF hc al2] wv AtWrite show ?thesis by simp
next
  case AtDel
  assume "complete epoll_fd fd p w = Finished w'" "alike w v"
  with AtDel show ?thesis by (auto intro: sys_close_alike sys_epoll_ctl_alike)
next
  case AtClose
  assume "complete epoll_fd fd p w = Finished w'" "alike w v"
  with AtClose show ?thesis by (auto intro: sys_close_alike)
next
  case Returned
  assume "complete epoll_fd fd p w = Finished w'" "alike w v"
  with Returned show ?thesis by auto
qed

lemma handler_step_complete:
  "handler_step epoll_fd fd p w = Some (p1, w1) \<Longrightarrow> pc_ok p \<Longrightarrow>
   complete epoll_fd fd p w = complete epoll_fd fd p1 w1 \<and> pc_ok p1"
proof (cases p)
  case AtRead
  assume st: "handler_step epoll_fd fd p w = Some (p1, w1)"
  with AtRead obtain n buffer where rd: "sys_read fd BUFFER_SIZE w = Some ((n, buffer), w1)"
    and p1: "p1 = (if n > 0 then AtWrite buffer n 0
                else if n = 0 then AtDel
                else if errno w1 = EAGAIN \<or> errno w1 = EWOULDBLOCK then Returned
                else AtDel)"
    by (auto split: option.splits)
  from rd p1 AtRead handleClient.simps [of epoll_fd fd w] show ?thesis
    by (auto split: run.splits)
next
  case (AtWrite buffer n tot)
  assume st: "handler_step epoll_fd fd p w = Some (p1, w1)" and ok: "pc_ok p"
  let ?bs = "take (nat (n - tot)) (drop (nat tot) buffer)"
  from st AtWrite obtain written where sw: "sys_write fd ?bs w = Some (written, w1)"
    and p1: "p1 = (if written \<le> 0 then AtRead
                else if tot + written < n then AtWrite buffer n (tot + written)
                else AtRead)"
    by (auto split: option.splits)
  from ok AtWrite have lt: "tot < n" by simp
  have "write_loop fd buffer n tot w =
          (if written \<le> 0 then Finished (tot, w1) else write_loop fd buffer n (tot + written) w1)"
    using lt sw by (subst write_loop.simps) simp
  moreover have "\<not> tot + written < n \<Longrightarrow>
      write_loop fd buffer n (tot + written) w1 = Finished (tot + written, w1)"
    by (subst write_loop.simps) simp
  ultimately show ?thesis using p1 AtWrite by auto
next
  case AtDel
  assume "handler_step epoll_fd fd p w = Some (p1, w1)"
  with AtDel show ?thesis by auto
next
  case AtClose
  assume "handler_step epoll_fd fd p w = Some (p1, w1)"
  with AtClose show ?thesis by auto
next
  case Returned
  assume "handler_step epoll_fd fd p w = Some (p1, w1)"
  with Returned show ?thesis by auto
qed

lemma rest_of_alike:
  "rest_of epoll_fd fd p k w = Finished w' \<Longrightarrow> alike w v \<Longrightarrow>
   \<exists>v'. rest_of epoll_fd fd p k v = Finished v' \<and> alike w' v'"
proof -
  assume r: "rest_of epoll_fd fd p k w = Finished w'" and al: "alike w v"
  from r obtain w1 where c: "complete epoll_fd fd p w = Finished w1"
    and t: "handleClient_times k epoll_fd fd w1 = Finished w'"
    by (auto simp: rest_of_def split: run.splits)
  from complete_alike [OF c al] obtain v1 where
    c': "complete epoll_fd fd p v = Finished v1" and al1: "alike w1 v1" by blast
  from handleClient_times_alike [OF t al1] obtain v' where
    "handleClient_times k epoll_fd fd v1 = Finished v'" "alike w' v'" by blast
  with c' show ?thesis by (auto simp: rest_of_def)
qed

lemma handler_step_tasks:
  "handler_step epoll_fd fd p w = Some (p1, w1) \<Longrightarrow> tasks w1 = tasks w"
  by (cases p)
     (auto simp: sys_read_def sys_write_def sys_epoll_ctl_def sys_close_def log_def Let_def
           split: option.splits list.splits read_result.splits if_splits)

lemma others_idle:
  "(\<forall>x\<in>set (ws[i := Idle]). x = Idle) \<longleftrightarrow> (\<forall>j < length ws. j = i \<or> ws ! j = Idle)"
proof -
  have "(\<forall>x\<in>set (ws[i := Idle]). x = Idle) \<longleftrightarrow>
        (\<forall>j < length ws. ws[i := Idle] ! j = Idle)"
    by (simp add: all_set_conv_all_nth)
  also have "\<dots> \<longleftrightarrow> (\<forall>j < length ws. j = i \<or> ws ! j = Idle)"
  proof (intro iff_allI)
    fix j
    show "(j < length ws \<longrightarrow> ws[i := Idle] ! j = Idle) \<longleftrightarrow>
          (j < length ws \<longrightarrow> j = i \<or> ws ! j = Idle)"
      by (cases "j = i") simp_all
  qed
  finally show ?thesis .
qed

lemma pool_serial_run:
  "pool_run acts ws w = Finished (ws', w') \<Longrightarrow> pool_serial acts ws w \<Longrightarrow>
   \<forall>x\<in>set acts. (\<exists>i. x = Work i) \<or> x = Submit epoll_fd fd \<Longrightarrow>
   tasks w = replicate a (epoll_fd, fd) \<Longrightarrow> pool_state epoll_fd fd ws cur \<Longrightarrow>
   rest_of epoll_fd fd (cur_pc cur)
     (a + length (filter (\<lambda>x. x = Submit epoll_fd fd) acts)) w = Finished wT \<Longrightarrow>
   \<forall>j < length ws'. ws' ! j = Idle \<Longrightarrow> tasks w' = [] \<Longrightarrow> alike w' wT"
proof (induction acts arbitrary: ws w a cur wT)
  case Nil
  then have ws: "ws' = ws" and w: "w' = w" by simp_all
  have "cur = None"
  proof (cases cur)
    case None then show ?thesis .
  next
    case (Some ip)
    obtain i p where "ip = (i, p)" by (cases ip)
    with Some Nil.prems(5) Nil.prems(7) ws show ?thesis by auto
  qed
  moreover from Nil.prems(4) Nil.prems(8) w have "a = 0" by simp
  ultimately show ?case using Nil.prems(6) w by (simp add: rest_of_def)
next
  case (Cons x acts)
  let ?c = "length (filter (\<lambda>x. x = Submit epoll_fd fd) acts)"
  from Cons.prems(3) have sub: "\<forall>x\<in>set acts. (\<exists>i. x = Work i) \<or> x = Submit epoll_fd fd"
    by simp
  show ?case
  proof (cases x)
    case (Submit e' f')
    with Cons.prems(3) have x: "x = Submit epoll_fd fd" by auto
    let ?w1 = "enqueue epoll_fd fd w"
    from x Cons.prems(1) have run: "pool_run acts ws ?w1 = Finished (ws', w')" by simp
    from x Cons.prems(2) have ser: "pool_serial acts ws ?w1" by simp
    from Cons.prems(4) have tk: "tasks ?w1 = replicate (Suc a) (epoll_fd, fd)"
      by (simp add: enqueue_def log_def replicate_append_same)
    from x Cons.prems(6) have "rest_of epoll_fd fd (cur_pc cur) (Suc a + ?c) w = Finished wT"
      by simp
    from rest_of_alike [OF this alike_enqueue [of w epoll_fd fd]] obtain wT1 where
      r1: "rest_of epoll_fd fd (cur_pc cur) (Suc a + ?c) ?w1 = Finished wT1" and
      al: "alike wT wT1" by blast
    from Cons.IH [OF run ser sub tk Cons.prems(5) r1 Cons.prems(7) Cons.prems(8)]
    have "alike w' wT1" .
    with al show ?thesis by (blast intro: alike_trans alike_sym)
  next
    case (Work i)
    from Work Cons.prems(6) have
      r: "rest_of epoll_fd fd (cur_pc cur) (a + ?c) w = Finished wT" by simp
    show ?thesis
    proof (cases "i < length ws")
      case False
      with Work Cons.prems(1) Cons.prems(2) have
        "pool_run acts ws w = Finished (ws', w')" "pool_serial acts ws w" by simp_all
      from Cons.IH [OF this sub Cons.prems(4) Cons.prems(5) r Cons.prems(7) Cons.prems(8)]
      show ?thesis .
    next
      case i: True
      show ?thesis
      proof (cases "ws ! i")
        case Idle
        show ?thesis
        proof (cases a)
          case 0
          with Cons.prems(4) have "tasks w = []" by simp
          with Idle have st: "worker_step (ws ! i) w = Some (Idle, w)" by simp
          from Idle have "ws[i := Idle] = ws" by (metis list_update_id)
          with st i Work Cons.prems(1) Cons.prems(2) have
            "pool_run acts ws w = Finished (ws', w')" "pool_serial acts ws w" by simp_all
          from Cons.IH [OF this sub Cons.prems(4) Cons.prems(5) r Cons.prems(7) Cons.prems(8)]
          show ?thesis .
        next
          case (Suc a')
          let ?q = "replicate a' (epoll_fd, fd)"
          let ?w1 = "w\<lparr>tasks := ?q\<rparr>"
          let ?ws1 = "ws[i := Busy epoll_fd fd AtRead]"
          from Suc Cons.prems(4) have tq: "tasks w = (epoll_fd, fd) # ?q" by simp
          with Idle have st: "worker_step (ws ! i) w = Some (Busy epoll_fd fd AtRead, ?w1)"
            by simp
          with i Work Cons.prems(1) Cons.prems(2) have
            run: "pool_run acts ?ws1 ?w1 = Finished (ws', w')" and
            ser: "pool_serial acts ?ws1 ?w1" and
            oth: "\<forall>j < length ws. j = i \<or> ws ! j = Idle"
            by (simp_all add: others_idle)
          have none: "cur = None"
          proof (cases cur)
            case None then show ?thesis .
          next
            case (Some ip)
            obtain i0 p where ip: "ip = (i0, p)" by (cases ip)
            with Some Cons.prems(5) have "i0 < length ws" "ws ! i0 = Busy epoll_fd fd p" by simp_all
            with oth Idle show ?thesis by auto
          qed
          from i oth have ps: "pool_state epoll_fd fd ?ws1 (Some (i, AtRead))"
            by (auto simp: nth_list_update)
          from none r Suc have "handleClient_times (Suc (a' + ?c)) epoll_fd fd w = Finished wT"
            by (simp add: rest_of_def)
          then have "rest_of epoll_fd fd AtRead (a' + ?c) w = Finished wT"
            by (simp add: rest_of_def)
          from rest_of_alike [OF this alike_tasks [of w ?q]] obtain wT1 where
            r1: "rest_of epoll_fd fd (cur_pc (Some (i, AtRead))) (a' + ?c) ?w1 = Finished wT1" and
            al: "alike wT wT1" by auto
          have tk: "tasks ?w1 = replicate a' (epoll_fd, fd)" by simp
          from Cons.IH [OF run ser sub tk ps r1 Cons.prems(7) Cons.prems(8)]
          have "alike w' wT1" .
          with al show ?thesis by (blast intro: alike_trans alike_sym)
        qed
      next
        case (Busy e1 f1 p1)
        obtain i0 p where cur: "cur = Some (i0, p)"
        proof (cases cur)
          case None
          with Cons.prems(5) i Busy show ?thesis by simp
        next
          case (Some ip)
          then show ?thesis using that by (cases ip) simp
        qed
        with Cons.prems(5) have ps: "i0 < length ws" "ws ! i0 = Busy epoll_fd fd p"
          "p \<noteq> Returned" "pc_ok p" "\<forall>j < length ws. j = i0 \<or> ws ! j = Idle"
          by simp_all
        with i Busy have ii: "i = i0" by auto
        with ps Busy have b: "ws ! i = Busy epoll_fd fd p" by simp
        from cur r have rp: "rest_of epoll_fd fd p (a + ?c) w = Finished wT" by simp
        show ?thesis
        proof (cases "handler_step epoll_fd fd p w")
          case None
          with b i Work Cons.prems(1) show ?thesis by simp
        next
          case (Some pw)
          obtain p2 w2 where pw: "pw = (p2, w2)" by (cases pw)
          with Some have hs: "handler_step epoll_fd fd p w = Some (p2, w2)" by simp
          from handler_step_complete [OF hs ps(4)] have
            ce: "complete epoll_fd fd p w = complete epoll_fd fd p2 w2" and ok2: "pc_ok p2"
            by simp_all
          from handler_step_tasks [OF hs] Cons.prems(4) have
            tk: "tasks w2 = replicate a (epoll_fd, fd)" by simp
          let ?wk = "if p2 = Returned then Idle else Busy epoll_fd fd p2"
          from hs b have st: "worker_step (ws ! i) w = Some (?wk, w2)" by simp
          with i Work Cons.prems(1) Cons.prems(2) have
            run: "pool_run acts (ws[i := ?wk]) w2 = Finished (ws', w')" and
            ser: "pool_serial acts (ws[i := ?wk]) w2"
            by simp_all
          from rp ce have r2: "rest_of epoll_fd fd p2 (a + ?c) w2 = Finished wT"
            by (simp add: rest_of_def)
          show ?thesis
          proof (cases "p2 = Returned")
            case True
            with ps(5) ii i have ps2: "pool_state epoll_fd fd (ws[i := ?wk]) None"
              by (auto simp: nth_list_update)
            from True r2 have "rest_of epoll_fd fd (cur_pc None) (a + ?c) w2 = Finished wT"
              by simp
            from Cons.IH [OF run ser sub tk ps2 this Cons.prems(7) Cons.prems(8)]
            show ?thesis .
          next
            case False
            with ps(5) ii i ok2 have
              ps2: "pool_state epoll_fd fd (ws[i := ?wk]) (Some (i, p2))"
              by (auto simp: nth_list_update)
            from r2 have "rest_of epoll_fd fd (cur_pc (Some (i, p2))) (a + ?c) w2 = Finished wT"
              by simp
            from Cons.IH [OF run ser sub tk ps2 this Cons.prems(7) Cons.prems(8)]
            show ?thesis .
          qed
        qed
      qed
    qed
  qed
qed

text \<open>
  There are such orders: one worker that serves the whole queue while the others stay
  idle is one, and it ends with the queue empty and every worker idle.
\<close>

lemma one_worker_serial:
  "\<forall>x\<in>set (ws[i := Idle]). x = Idle \<Longrightarrow> pool_serial (replicate k (Work i)) ws w"
proof (induction k arbitrary: ws w)
  case 0
  show ?case by simp
next
  case (Suc k ws w)
  show ?case
  proof (cases "i < length ws")
    case False
    with Suc show ?thesis by simp
  next
    case True
    show ?thesis
    proof (cases "worker_step (ws ! i) w")
      case None
      with True show ?thesis by simp
    next
      case (Some a)
      obtain wk w1 where a: "a = (wk, w1)" by (cases a)
      have "(ws[i := wk])[i := Idle] = ws[i := Idle]" by simp
      with Suc.prems have "\<forall>x\<in>set ((ws[i := wk])[i := Idle]). x = Idle" by simp
      from Suc.IH [OF this] have "pool_serial (replicate k (Work i)) (ws[i := wk]) w1" .
      with True Some a Suc.prems show ?thesis by simp
    qed
  qed
qed

lemma pool_finishes:
  assumes t: "handleClient_times m epoll_fd fd w = Finished wT"
  shows "\<exists>k. pool_serial (replicate k (Work 0)) idle_pool (w\<lparr>tasks := replicate m (epoll_fd, fd)\<rparr>) \<and>
             pool_run (replicate k (Work 0)) idle_pool
               (w\<lparr>tasks := replicate m (epoll_fd, fd)\<rparr>) =
             Finished (idle_pool, wT\<lparr>tasks := []\<rparr>)"
proof -
  let ?R = "replicate m (epoll_fd, fd)"
  from handleClient_times_tasks [OF t, of ?R] have
    t': "handleClient_times m epoll_fd fd (w\<lparr>tasks := ?R\<rparr>) = Finished (wT\<lparr>tasks := ?R\<rparr>)" .
  have q: "tasks (w\<lparr>tasks := ?R\<rparr>) = ?R @ []" by simp
  have i: "0 < length idle_pool" "idle_pool ! 0 = Idle"
    by (simp_all add: idle_pool_def THREAD_POOL_SIZE_def)
  have "\<forall>x\<in>set (idle_pool[0 := Idle]). x = Idle"
    by (auto simp: idle_pool_def dest: set_update_subset_insert [THEN subsetD])
  then have s: "\<And>k. pool_serial (replicate k (Work 0)) idle_pool (w\<lparr>tasks := ?R\<rparr>)"
    by (rule one_worker_serial)
  from pool_serves_in_turn [OF t' q i] obtain k where
    "pool_run (replicate k (Work 0)) idle_pool (w\<lparr>tasks := ?R\<rparr>) = Finished (idle_pool, wT\<lparr>tasks := []\<rparr>)"
    by auto
  with s show ?thesis by blast
qed

section \<open>The echo\<close>

lemma write_loop_all_sent:
  "n = int (length buffer) \<Longrightarrow> 0 \<le> tot \<Longrightarrow> tot \<le> n \<Longrightarrow>
   \<forall>r\<in>set (writes w). 0 < r \<Longrightarrow> nat (n - tot) \<le> length (writes w) \<Longrightarrow>
   \<exists>w' j. write_loop fd buffer n tot w = Finished (n, w') \<and>
     sent w' = sent w @ drop (nat tot) buffer \<and>
     writes w' = drop j (writes w) \<and> j \<le> nat (n - tot) \<and>
     reads w' = reads w \<and> fflags w' = fflags w \<and> interest w' = interest w"
proof (induction fd buffer n tot w rule: write_loop.induct)
  case (1 fd buffer n tot w)
  show ?case
  proof (cases "tot < n")
    case False
    with "1.prems" have "tot = n" by simp
    then have "write_loop fd buffer n tot w = Finished (n, w)"
      by (simp add: write_loop.simps)
    with \<open>tot = n\<close> "1.prems" show ?thesis
      by (intro exI [of _ w] exI [of _ 0]) simp
  next
    case True
    let ?bs = "take (nat (n - tot)) (drop (nat tot) buffer)"
    have bs: "?bs = drop (nat tot) buffer" using "1.prems" by simp
    from True "1.prems" obtain r rs where ws: "writes w = r # rs"
      by (cases "writes w") auto
    with "1.prems" have r: "0 < r" by simp
    define written where "written = min r (int (length ?bs))"
    define w1 where "w1 = w\<lparr>writes := rs, sent := sent w @ take (nat written) ?bs,
                            trace := trace w @ [SysWrite fd ?bs written]\<rparr>"
    from ws r have sw: "sys_write fd ?bs w = Some (written, w1)"
      by (simp add: sys_write_def log_def Let_def written_def w1_def)
    from r True "1.prems" have pos: "0 < written" and le: "tot + written \<le> n"
      by (simp_all add: written_def)
    from pos have np: "\<not> written \<le> 0" by simp
    from True sw np have
      eq: "write_loop fd buffer n tot w = write_loop fd buffer n (tot + written) w1"
      by (simp add: write_loop.simps)
    have p1: "\<forall>r\<in>set (writes w1). 0 < r" using "1.prems" ws by (simp add: w1_def)
    have p2: "nat (n - (tot + written)) \<le> length (writes w1)"
      using "1.prems" ws pos by (simp add: w1_def)
    have p0: "0 \<le> tot + written" using "1.prems" pos by simp
    from "1.IH" [OF True sw refl np "1.prems"(1) p0 le p1 p2]
    obtain w' j where
      f: "write_loop fd buffer n (tot + written) w1 = Finished (n, w')" and
      s: "sent w' = sent w1 @ drop (nat (tot + written)) buffer" and
      j: "writes w' = drop j (writes w1)" "j \<le> nat (n - (tot + written))" and
      fr: "reads w' = reads w1" "fflags w' = fflags w1" "interest w' = interest w1"
      by blast
    have "take (nat written) (drop (nat tot) buffer) @ drop (nat (tot + written)) buffer =
          drop (nat tot) buffer"
    proof -
      have "nat (tot + written) = nat written + nat tot" using pos "1.prems" by simp
      then have "drop (nat (tot + written)) buffer = drop (nat written) (drop (nat tot) buffer)"
        by simp
      then show ?thesis by (simp only: append_take_drop_id)
    qed
    with s bs have s': "sent w' = sent w @ drop (nat tot) buffer" by (simp add: w1_def)
    from j ws have j': "writes w' = drop (Suc j) (writes w)" by (simp add: w1_def)
    from j pos le have j'': "Suc j \<le> nat (n - tot)" by simp
    from f s' j' j'' fr show ?thesis
      by (intro exI [of _ w'] exI [of _ "Suc j"]) (simp add: eq w1_def)
  qed
qed

lemma close_after_del_frame:
  "sent (snd (sys_close fd (snd (sys_epoll_ctl epoll_fd EPOLL_CTL_DEL fd None w)))) = sent w"
  "reads (snd (sys_close fd (snd (sys_epoll_ctl epoll_fd EPOLL_CTL_DEL fd None w)))) = reads w"
  "writes (snd (sys_close fd (snd (sys_epoll_ctl epoll_fd EPOLL_CTL_DEL fd None w)))) = writes w"
  by (auto simp: sys_close_def sys_epoll_ctl_def log_def)

lemma handleClient_last_round:
  "reads w = map RBytes cs @ r # rest \<Longrightarrow> \<not> delivers_data r \<Longrightarrow>
   \<forall>c\<in>set cs. c \<noteq> [] \<and> length c \<le> nat BUFFER_SIZE \<Longrightarrow>
   \<forall>x\<in>set (writes w). 0 < x \<Longrightarrow> length (concat cs) \<le> length (writes w) \<Longrightarrow>
   \<exists>w' j. handleClient epoll_fd fd w = Finished w' \<and>
     sent w' = sent w @ concat cs \<and> reads w' = rest \<and>
     writes w' = drop j (writes w) \<and> j \<le> length (concat cs) \<and>
     (if end_of_connection r
      then fflags w' fd = None \<and> interest w' (epoll_fd, fd) = None
      else fflags w' = fflags w \<and> interest w' = interest w)"
proof (induction cs arbitrary: w)
  case Nil
  show ?case
  proof (cases r)
    case (RFail e)
    let ?w1 = "w\<lparr>reads := rest, errno := e, trace := trace w @ [SysRead fd (RFail e)]\<rparr>"
    from Nil RFail have rd: "sys_read fd BUFFER_SIZE w = Some ((- 1, []), ?w1)"
      by (simp add: sys_read_def log_def)
    show ?thesis
    proof (cases "e = EAGAIN \<or> e = EWOULDBLOCK")
      case True
      with rd have "handleClient epoll_fd fd w = Finished ?w1"
        by (subst handleClient.simps) auto
      with True RFail show ?thesis by (intro exI [of _ ?w1] exI [of _ 0]) auto
    next
      case False
      let ?w2 = "snd (sys_close fd (snd (sys_epoll_ctl epoll_fd EPOLL_CTL_DEL fd None ?w1)))"
      from rd False have "handleClient epoll_fd fd w = Finished ?w2"
        by (subst handleClient.simps) auto
      with False RFail show ?thesis
        by (intro exI [of _ ?w2] exI [of _ 0]) (simp add: close_after_del close_after_del_frame)
    qed
  next
    case (RBytes bs)
    with Nil have bs: "bs = []" by simp
    let ?w1 = "w\<lparr>reads := rest, trace := trace w @ [SysRead fd (RBytes [])]\<rparr>"
    let ?w2 = "snd (sys_close fd (snd (sys_epoll_ctl epoll_fd EPOLL_CTL_DEL fd None ?w1)))"
    from Nil RBytes bs have rd: "sys_read fd BUFFER_SIZE w = Some ((0, []), ?w1)"
      by (simp add: sys_read_def log_def)
    then have "handleClient epoll_fd fd w = Finished ?w2"
      by (subst handleClient.simps) auto
    with RBytes bs show ?thesis
      by (intro exI [of _ ?w2] exI [of _ 0]) (simp add: close_after_del close_after_del_frame)
  qed
next
  case (Cons c cs)
  let ?w1 = "w\<lparr>reads := map RBytes cs @ r # rest, trace := trace w @ [SysRead fd (RBytes c)]\<rparr>"
  from Cons.prems have c: "c \<noteq> []" "length c \<le> nat BUFFER_SIZE" by simp_all
  then have tk: "take (nat BUFFER_SIZE) c = c" by simp
  from Cons.prems tk have rd: "sys_read fd BUFFER_SIZE w = Some ((int (length c), c), ?w1)"
    by (simp add: sys_read_def log_def)
  from c have pos: "0 < int (length c)" by simp
  have "\<forall>r\<in>set (writes ?w1). 0 < r" "nat (int (length c) - 0) \<le> length (writes ?w1)"
    using Cons.prems by simp_all
  from write_loop_all_sent [OF refl _ _ this, of fd]
  obtain w2 j where
    wl: "write_loop fd c (int (length c)) 0 ?w1 = Finished (int (length c), w2)" and
    s: "sent w2 = sent ?w1 @ drop (nat 0) c" and
    j: "writes w2 = drop j (writes ?w1)" "j \<le> nat (int (length c) - 0)" and
    fr: "reads w2 = reads ?w1" "fflags w2 = fflags ?w1" "interest w2 = interest ?w1"
    by auto
  from rd pos wl have eq: "handleClient epoll_fd fd w = handleClient epoll_fd fd w2"
    by (subst handleClient.simps) simp
  have a1: "reads w2 = map RBytes cs @ r # rest" using fr by simp
  have a2: "\<forall>c\<in>set cs. c \<noteq> [] \<and> length c \<le> nat BUFFER_SIZE" using Cons.prems by simp
  have a3: "\<forall>x\<in>set (writes w2). 0 < x"
    using Cons.prems j by (auto dest: in_set_dropD)
  have a4: "length (concat cs) \<le> length (writes w2)"
    using Cons.prems j by simp
  from Cons.IH [OF a1 Cons.prems(2) a2 a3 a4] obtain w' j' where
    f: "handleClient epoll_fd fd w2 = Finished w'" and
    s': "sent w' = sent w2 @ concat cs" "reads w' = rest" and
    j': "writes w' = drop j' (writes w2)" "j' \<le> length (concat cs)" and
    fr': "if end_of_connection r
          then fflags w' fd = None \<and> interest w' (epoll_fd, fd) = None
          else fflags w' = fflags w2 \<and> interest w' = interest w2"
    by blast
  from j j' have "writes w' = drop (j' + j) (writes w)" "j' + j \<le> length (concat (c # cs))"
    by simp_all
  with f s s' fr fr' show ?case
    by (intro exI [of _ w'] exI [of _ "j' + j"]) (simp add: eq)
qed

lemma every_payload_has_rounds:
  "\<exists>rounds. concat (concat rounds) = P \<and>
     (\<forall>cs\<in>set rounds. \<forall>c\<in>set cs. c \<noteq> [] \<and> length c \<le> nat BUFFER_SIZE)"
proof (intro exI conjI)
  show "concat (concat [map (\<lambda>x. [x]) P]) = P" by (induction P) simp_all
  show "\<forall>cs\<in>set [map (\<lambda>x. [x]) P]. \<forall>c\<in>set cs. c \<noteq> [] \<and> length c \<le> nat BUFFER_SIZE"
    by (auto simp: BUFFER_SIZE_def)
qed

text \<open>
  The payload \<open>P\<close> reaches the server over any number of calls of \<open>handleClient\<close>, each
  returning before the next starts; the reads of every call but the last end with
  \<open>EAGAIN\<close>, those of the last with a read \<open>r\<close> that hands over no byte.
\<close>

lemma handleClient_times_echo:
  "reads w = concat (map (\<lambda>cs. map RBytes cs @ [RFail EAGAIN]) rounds) @ map RBytes cs @ r # rest \<Longrightarrow>
   \<not> delivers_data r \<Longrightarrow>
   concat (concat rounds) @ concat cs = P \<Longrightarrow>
   \<forall>cs'\<in>set (cs # rounds). \<forall>c\<in>set cs'. c \<noteq> [] \<and> length c \<le> nat BUFFER_SIZE \<Longrightarrow>
   \<forall>x\<in>set (writes w). 0 < x \<Longrightarrow> length P \<le> length (writes w) \<Longrightarrow>
   \<exists>w'. handleClient_times (Suc (length rounds)) epoll_fd fd w = Finished w' \<and>
     sent w' = sent w @ P \<and> reads w' = rest \<and>
     (if end_of_connection r
      then fflags w' fd = None \<and> interest w' (epoll_fd, fd) = None
      else fflags w' = fflags w \<and> interest w' = interest w)"
proof (induction rounds arbitrary: w P)
  case Nil
  from Nil.prems have r: "reads w = map RBytes cs @ r # rest"
    and v: "\<forall>c\<in>set cs. c \<noteq> [] \<and> length c \<le> nat BUFFER_SIZE"
    and l: "length (concat cs) \<le> length (writes w)" and p: "P = concat cs"
    by auto
  from handleClient_last_round [OF r Nil.prems(2) v Nil.prems(5) l, of epoll_fd fd] p
  show ?case by auto
next
  case (Cons c0 rounds)
  have ne: "\<not> delivers_data (RFail EAGAIN)" "\<not> end_of_connection (RFail EAGAIN)" by simp_all
  let ?rest = "concat (map (\<lambda>cs. map RBytes cs @ [RFail EAGAIN]) rounds) @ map RBytes cs @ r # rest"
  from Cons.prems have
    r: "reads w = map RBytes c0 @ RFail EAGAIN # ?rest" and
    v: "\<forall>c\<in>set c0. c \<noteq> [] \<and> length c \<le> nat BUFFER_SIZE" and
    l: "length (concat c0) \<le> length (writes w)"
    by auto
  from handleClient_last_round [OF r ne(1) v Cons.prems(5) l, of epoll_fd fd] ne(2)
  obtain w1 j where
    f: "handleClient epoll_fd fd w = Finished w1" and
    s: "sent w1 = sent w @ concat c0" "reads w1 = ?rest" and
    j: "writes w1 = drop j (writes w)" "j \<le> length (concat c0)" and
    fr: "fflags w1 = fflags w" "interest w1 = interest w"
    by auto
  have a3: "\<forall>cs'\<in>set (cs # rounds). \<forall>c\<in>set cs'. c \<noteq> [] \<and> length c \<le> nat BUFFER_SIZE"
    using Cons.prems by simp
  have a4: "\<forall>x\<in>set (writes w1). 0 < x" using Cons.prems j by (auto dest: in_set_dropD)
  have a5: "length (concat (concat rounds) @ concat cs) \<le> length (writes w1)"
    using Cons.prems j by auto
  from Cons.IH [OF s(2) Cons.prems(2) refl a3 a4 a5] obtain w' where
    "handleClient_times (Suc (length rounds)) epoll_fd fd w1 = Finished w'"
    "sent w' = sent w1 @ concat (concat rounds) @ concat cs" "reads w' = rest"
    "if end_of_connection r
     then fflags w' fd = None \<and> interest w' (epoll_fd, fd) = None
     else fflags w' = fflags w1 \<and> interest w' = interest w1"
    by blast
  with f s fr Cons.prems(3) show ?case by auto
qed

text \<open>
  Claim C1, as the claim states it, fails.  Nothing in the program keeps two tasks
  for one connection apart: the reactor submits a task for every readiness report, the
  registration is edge-triggered without \<open>EPOLLONESHOT\<close>, and the pool has four workers.
  Here the peer sends \<open>ping\<close>.  Two bytes arrive and are reported; worker 0 takes the
  task and reads \<open>pi\<close>.  The other two arrive and are reported; worker 1 takes the second
  task, reads \<open>ng\<close> and writes it before worker 0 writes \<open>pi\<close>.  Every read and every
  write has succeeded, each write took all it was offered, both calls return on
  \<open>EAGAIN\<close>, and the peer gets \<open>ngpi\<close>.  The two calls overlap: the order is not
  \<open>pool_serial\<close>.
\<close>

theorem overlapping_handlers_reorder_counterexample:
  "sent (world_of (map_run snd (pool_run
     [Submit 3 5, Work 0, Work 0, Submit 3 5, Work 1, Work 1, Work 1, Work 0, Work 0, Work 1]
     idle_pool
     (serving_world\<lparr>reads := [RBytes ''pi'', RBytes ''ng'', RFail 11, RFail 11],
                    writes := [2, 2]\<rparr>)))) = ''ngpi'' \<and>
   trace (world_of (map_run snd (pool_run
     [Submit 3 5, Work 0, Work 0, Submit 3 5, Work 1, Work 1, Work 1, Work 0, Work 0, Work 1]
     idle_pool
     (serving_world\<lparr>reads := [RBytes ''pi'', RBytes ''ng'', RFail 11, RFail 11],
                    writes := [2, 2]\<rparr>)))) =
     [Enqueue 3 5, SysRead 5 (RBytes ''pi''), Enqueue 3 5, SysRead 5 (RBytes ''ng''),
      SysWrite 5 ''ng'' 2, SysWrite 5 ''pi'' 2, SysRead 5 (RFail 11), SysRead 5 (RFail 11)] \<and>
   map_run fst (pool_run
     [Submit 3 5, Work 0, Work 0, Submit 3 5, Work 1, Work 1, Work 1, Work 0, Work 0, Work 1]
     idle_pool
     (serving_world\<lparr>reads := [RBytes ''pi'', RBytes ''ng'', RFail 11, RFail 11],
                    writes := [2, 2]\<rparr>)) = Finished [Idle, Idle, Idle, Idle] \<and>
   \<not> pool_serial
     [Submit 3 5, Work 0, Work 0, Submit 3 5, Work 1, Work 1, Work 1, Work 0, Work 0, Work 1]
     idle_pool
     (serving_world\<lparr>reads := [RBytes ''pi'', RBytes ''ng'', RFail 11, RFail 11],
                    writes := [2, 2]\<rparr>)"
  by (simp add: pool_simps)

text \<open>
  Claim C1, amended.  The calls of \<open>handleClient\<close> for the connection do not overlap:
  each returns before the next starts.  The payload \<open>P\<close> reaches the server over any
  number of such calls; in each, the reads return any non-empty chunks of at most
  \<open>BUFFER_SIZE\<close> bytes; the reads of every call but the last end with \<open>EAGAIN\<close>, those of
  the last with any read \<open>r\<close> that hands over no byte: \<open>EAGAIN\<close>, end-of-stream, or an
  error.  Every write succeeds: the kernel takes at least one byte each time, and how
  many is up to it.  Then all the calls return, and the bytes the kernel was given for
  the peer are \<open>P\<close>, in order, with nothing added.  After \<open>EAGAIN\<close> the connection is
  open and registered as before; after end-of-stream or an error it is closed and
  deregistered.  The same holds of the worker pool itself: in every order of the
  workers' and the reactor's steps in which no two calls overlap (\<open>pool_serial\<close>), with
  as many tasks for the connection as there are calls, once the queue is empty and the
  workers are idle again the peer has been sent \<open>P\<close> and the connection is as said; and
  there is such an order, in which the pool does get there.  By
  \<open>every_payload_has_rounds\<close> every \<open>P\<close>, the empty one and those longer than
  \<open>BUFFER_SIZE\<close> too, arrives in some such way.
\<close>

theorem handleClient_echoes_payload:
  assumes rd: "reads w = concat (map (\<lambda>cs. map RBytes cs @ [RFail EAGAIN]) rounds) @
                         map RBytes cs @ r # rest"
    and nd: "\<not> delivers_data r"
    and P: "concat (concat rounds) @ concat cs = P"
    and ch: "\<forall>cs'\<in>set (cs # rounds). \<forall>c\<in>set cs'. c \<noteq> [] \<and> length c \<le> nat BUFFER_SIZE"
    and wr: "\<forall>x\<in>set (writes w). 0 < x"
    and ln: "length P \<le> length (writes w)"
  shows "\<exists>wT. handleClient_times (Suc (length rounds)) epoll_fd fd w = Finished wT \<and>
     sent wT = sent w @ P \<and> reads wT = rest \<and>
     (if end_of_connection r
      then fflags wT fd = None \<and> interest wT (epoll_fd, fd) = None
      else fflags wT = fflags w \<and> interest wT = interest w) \<and>
     (\<exists>k. pool_serial (replicate k (Work 0)) idle_pool
              (w\<lparr>tasks := replicate (Suc (length rounds)) (epoll_fd, fd)\<rparr>) \<and>
          pool_run (replicate k (Work 0)) idle_pool
              (w\<lparr>tasks := replicate (Suc (length rounds)) (epoll_fd, fd)\<rparr>) =
            Finished (idle_pool, wT\<lparr>tasks := []\<rparr>)) \<and>
     (\<forall>acts ws ws' w'.
        pool_run acts ws w = Finished (ws', w') \<and> pool_serial acts ws w \<and>
        (\<forall>x\<in>set acts. (\<exists>i. x = Work i) \<or> x = Submit epoll_fd fd) \<and>
        (\<exists>a. tasks w = replicate a (epoll_fd, fd) \<and>
             a + length (filter (\<lambda>x. x = Submit epoll_fd fd) acts) = Suc (length rounds)) \<and>
        (\<forall>j < length ws. ws ! j = Idle) \<and> (\<forall>j < length ws'. ws' ! j = Idle) \<and> tasks w' = [] \<longrightarrow>
        sent w' = sent w @ P \<and> reads w' = rest \<and>
        (if end_of_connection r
         then fflags w' fd = None \<and> interest w' (epoll_fd, fd) = None
         else fflags w' = fflags w \<and> interest w' = interest w))"
proof -
  from handleClient_times_echo [OF rd nd P ch wr ln, of epoll_fd fd] obtain wT where
    t: "handleClient_times (Suc (length rounds)) epoll_fd fd w = Finished wT" and
    s: "sent wT = sent w @ P" "reads wT = rest" and
    st: "if end_of_connection r
         then fflags wT fd = None \<and> interest wT (epoll_fd, fd) = None
         else fflags wT = fflags w \<and> interest wT = interest w"
    by blast
  have "sent w' = sent w @ P \<and> reads w' = rest \<and>
        (if end_of_connection r
         then fflags w' fd = None \<and> interest w' (epoll_fd, fd) = None
         else fflags w' = fflags w \<and> interest w' = interest w)"
    if run: "pool_run acts ws w = Finished (ws', w')" and ser: "pool_serial acts ws w"
      and sub: "\<forall>x\<in>set acts. (\<exists>i. x = Work i) \<or> x = Submit epoll_fd fd"
      and q: "tasks w = replicate a (epoll_fd, fd)"
         "a + length (filter (\<lambda>x. x = Submit epoll_fd fd) acts) = Suc (length rounds)"
      and idle: "\<forall>j < length ws. ws ! j = Idle" and idle': "\<forall>j < length ws'. ws' ! j = Idle"
      and emp: "tasks w' = []"
    for acts ws ws' w' a
  proof -
    from idle have ps: "pool_state epoll_fd fd ws None" by simp
    from t q(2) have "rest_of epoll_fd fd (cur_pc None)
        (a + length (filter (\<lambda>x. x = Submit epoll_fd fd) acts)) w = Finished wT"
      by (simp add: rest_of_def)
    from pool_serial_run [OF run ser sub q(1) ps this idle' emp] have "alike w' wT" .
    then have "sent w' = sent wT" "reads w' = reads wT" "fflags w' = fflags wT"
      "interest w' = interest wT"
      by (simp_all add: alike_def)
    with s st show ?thesis by simp
  qed
  moreover note pool_finishes [OF t]
  ultimately show ?thesis using t s st by blast
qed

theorem handleClient_echoes_payload_witness:
  "(\<exists>w'. handleClient_times 1 3 5 (serving_world\<lparr>reads := [RFail 11]\<rparr>) = Finished w' \<and>
         sent w' = []) \<and>
   (\<exists>w'. handleClient_times 2 3 5
            (serving_world\<lparr>reads := [RBytes ''pi'', RBytes ''n'', RFail 11, RBytes ''g'', RBytes [],
                                      RBytes ''x''],
                           writes := [1, 7, 7, 7]\<rparr>) = Finished w' \<and>
         sent w' = ''ping'' \<and> reads w' = [RBytes ''x''] \<and>
         fflags w' 5 = None \<and> interest w' (3, 5) = None) \<and>
   (\<exists>ws' w'. pool_run ([Submit 3 5] @ replicate 7 (Work 0) @ [Submit 3 5] @ replicate 6 (Work 1))
            idle_pool
            (serving_world\<lparr>reads := [RBytes ''pi'', RBytes ''n'', RFail 11, RBytes ''g'', RBytes [],
                                      RBytes ''x''],
                           writes := [1, 7, 7, 7]\<rparr>) = Finished (ws', w') \<and>
         sent w' = ''ping'' \<and> reads w' = [RBytes ''x''] \<and>
         fflags w' 5 = None \<and> interest w' (3, 5) = None) \<and>
   (\<exists>w'. handleClient_times 1 3 5
            (serving_world\<lparr>reads := [RBytes (replicate 4096 CHR ''x''),
                                      RBytes (replicate 4096 CHR ''x''),
                                      RBytes (replicate 1808 CHR ''x''), RFail 11],
                           writes := replicate 10000 1460\<rparr>) = Finished w' \<and>
         sent w' = replicate 10000 CHR ''x'' \<and>
         fflags w' 5 = Some 2050 \<and> interest w' (3, 5) = Some (EPOLLIN OR EPOLLET))"
proof (intro conjI)
  let ?w = "serving_world\<lparr>reads := [RFail 11]\<rparr>"
  have h1: "reads ?w = concat (map (\<lambda>cs. map RBytes cs @ [RFail EAGAIN]) []) @
              map RBytes [] @ RFail 11 # []"
    by simp
  have h2: "\<not> delivers_data (RFail 11)" by simp
  have h3: "concat (concat []) @ concat [] = ([] :: char list)" by simp
  have h4: "\<forall>cs'\<in>set ([] # []). \<forall>c\<in>set cs'. c \<noteq> ([] :: char list) \<and> length c \<le> nat BUFFER_SIZE"
    by simp
  have h5: "\<forall>x\<in>set (writes ?w). 0 < x" by (simp add: serving_world_def fresh_world_def)
  have h6: "length ([] :: char list) \<le> length (writes ?w)" by simp
  from handleClient_echoes_payload [OF h1 h2 h3 h4 h5 h6, of 3 5] obtain w' where
    "handleClient_times (Suc (length ([] :: char list list list))) 3 5 ?w = Finished w'"
    "sent w' = sent ?w @ []"
    by blast
  then have "handleClient_times 1 3 5 ?w = Finished w' \<and> sent w' = []"
    by (simp add: serving_world_def fresh_world_def)
  then show "\<exists>w'. handleClient_times 1 3 5 ?w = Finished w' \<and> sent w' = []" by blast
next
  let ?w = "serving_world\<lparr>reads := [RBytes ''pi'', RBytes ''n'', RFail 11, RBytes ''g'', RBytes [],
                                      RBytes ''x''],
                           writes := [1, 7, 7, 7]\<rparr>"
  have h1: "reads ?w =
     concat (map (\<lambda>cs. map RBytes cs @ [RFail EAGAIN]) [[''pi'', ''n'']]) @
     map RBytes [''g''] @ RBytes [] # [RBytes ''x'']"
    by (simp add: EAGAIN_def)
  have h2: "\<not> delivers_data (RBytes [])" by simp
  have h3: "concat (concat [[''pi'', ''n'']]) @ concat [''g''] = ''ping''" by simp
  have h4: "\<forall>cs'\<in>set ([''g''] # [[''pi'', ''n'']]). \<forall>c\<in>set cs'. c \<noteq> [] \<and> length c \<le> nat BUFFER_SIZE"
    by (simp add: BUFFER_SIZE_def)
  have h5: "\<forall>x\<in>set (writes ?w). 0 < x" by simp
  have h6: "length ''ping'' \<le> length (writes ?w)" by simp
  from handleClient_echoes_payload [OF h1 h2 h3 h4 h5 h6, of 3 5] obtain w' where
    "handleClient_times (Suc (length [[''pi'', ''n'']])) 3 5 ?w = Finished w'"
    "sent w' = sent ?w @ ''ping''" "reads w' = [RBytes ''x'']"
    "if end_of_connection (RBytes [])
     then fflags w' 5 = None \<and> interest w' (3, 5) = None
     else fflags w' = fflags ?w \<and> interest w' = interest ?w"
    by blast
  then have "handleClient_times 2 3 5 ?w = Finished w' \<and>
         sent w' = ''ping'' \<and> reads w' = [RBytes ''x''] \<and>
         fflags w' 5 = None \<and> interest w' (3, 5) = None"
    by (simp add: serving_world_def fresh_world_def numeral_2_eq_2)
  then show "\<exists>w'. handleClient_times 2 3 5 ?w = Finished w' \<and>
         sent w' = ''ping'' \<and> reads w' = [RBytes ''x''] \<and>
         fflags w' 5 = None \<and> interest w' (3, 5) = None"
    by blast
next
  let ?w = "serving_world\<lparr>reads := [RBytes ''pi'', RBytes ''n'', RFail 11, RBytes ''g'', RBytes [],
                                      RBytes ''x''],
                           writes := [1, 7, 7, 7]\<rparr>"
  let ?acts = "[Submit 3 5] @ replicate 7 (Work 0) @ [Submit 3 5] @ replicate 6 (Work 1)"
  have h1: "reads ?w =
     concat (map (\<lambda>cs. map RBytes cs @ [RFail EAGAIN]) [[''pi'', ''n'']]) @
     map RBytes [''g''] @ RBytes [] # [RBytes ''x'']"
    by (simp add: EAGAIN_def)
  have h2: "\<not> delivers_data (RBytes [])" by simp
  have h3: "concat (concat [[''pi'', ''n'']]) @ concat [''g''] = ''ping''" by simp
  have h4: "\<forall>cs'\<in>set ([''g''] # [[''pi'', ''n'']]). \<forall>c\<in>set cs'. c \<noteq> [] \<and> length c \<le> nat BUFFER_SIZE"
    by (simp add: BUFFER_SIZE_def)
  have h5: "\<forall>x\<in>set (writes ?w). 0 < x" by simp
  have h6: "length ''ping'' \<le> length (writes ?w)" by simp
  have "\<exists>ws' w'. pool_run ?acts idle_pool ?w = Finished (ws', w') \<and>
          (\<forall>j < length ws'. ws' ! j = Idle) \<and> tasks w' = []"
    by (simp add: pool_simps nth_Cons' less_Suc_eq)
  then obtain ws' w' where run: "pool_run ?acts idle_pool ?w = Finished (ws', w')"
    and idle': "\<forall>j < length ws'. ws' ! j = Idle" and emp: "tasks w' = []"
    by blast
  have ser: "pool_serial ?acts idle_pool ?w" by (simp add: pool_simps)
  have sub: "\<forall>x\<in>set ?acts. (\<exists>i. x = Work i) \<or> x = Submit 3 5" by auto
  have q: "\<exists>a. tasks ?w = replicate a (3, 5) \<and>
             a + length (filter (\<lambda>x. x = Submit 3 5) ?acts) = Suc (length [[''pi'', ''n'']])"
    by (intro exI [of _ 0]) (simp add: serving_world_def fresh_world_def)
  have idle: "\<forall>j < length idle_pool. idle_pool ! j = Idle" by (simp add: idle_pool_def)
  from handleClient_echoes_payload [OF h1 h2 h3 h4 h5 h6, of 3 5] run ser sub q idle idle' emp
  have "sent w' = sent ?w @ ''ping'' \<and> reads w' = [RBytes ''x''] \<and>
        (if end_of_connection (RBytes [])
         then fflags w' 5 = None \<and> interest w' (3, 5) = None
         else fflags w' = fflags ?w \<and> interest w' = interest ?w)"
    by blast
  then have "sent w' = ''ping'' \<and> reads w' = [RBytes ''x''] \<and>
         fflags w' 5 = None \<and> interest w' (3, 5) = None"
    by (simp add: serving_world_def fresh_world_def)
  with run show "\<exists>ws' w'. pool_run ?acts idle_pool ?w = Finished (ws', w') \<and>
         sent w' = ''ping'' \<and> reads w' = [RBytes ''x''] \<and>
         fflags w' 5 = None \<and> interest w' (3, 5) = None"
    by blast
next
  let ?a = "replicate 4096 CHR ''x''"
  let ?b = "replicate 1808 CHR ''x''"
  let ?w = "serving_world\<lparr>reads := [RBytes ?a, RBytes ?a, RBytes ?b, RFail 11],
                           writes := replicate 10000 1460\<rparr>"
  have h1: "reads ?w = concat (map (\<lambda>cs. map RBytes cs @ [RFail EAGAIN]) []) @
              map RBytes [?a, ?a, ?b] @ RFail 11 # []"
    by simp
  have h2: "\<not> delivers_data (RFail 11)" by simp
  have h3: "concat (concat []) @ concat [?a, ?a, ?b] = replicate 10000 CHR ''x''"
    by (simp add: replicate_add [symmetric])
  have h4: "\<forall>cs'\<in>set ([?a, ?a, ?b] # []). \<forall>c\<in>set cs'. c \<noteq> [] \<and> length c \<le> nat BUFFER_SIZE"
    by (simp add: BUFFER_SIZE_def)
  have h5: "\<forall>x\<in>set (writes ?w). 0 < x" by simp
  have h6: "length (replicate 10000 CHR ''x'') \<le> length (writes ?w)" by simp
  from handleClient_echoes_payload [OF h1 h2 h3 h4 h5 h6, of 3 5] obtain w' where
    "handleClient_times (Suc (length ([] :: char list list list))) 3 5 ?w = Finished w'"
    "sent w' = sent ?w @ replicate 10000 CHR ''x''"
    "if end_of_connection (RFail 11)
     then fflags w' 5 = None \<and> interest w' (3, 5) = None
     else fflags w' = fflags ?w \<and> interest w' = interest ?w"
    by blast
  then have "handleClient_times 1 3 5 ?w = Finished w' \<and> sent w' = replicate 10000 CHR ''x'' \<and>
         fflags w' 5 = Some 2050 \<and> interest w' (3, 5) = Some (EPOLLIN OR EPOLLET)"
    by (simp add: serving_world_def fresh_world_def EAGAIN_def)
  then show "\<exists>w'. handleClient_times 1 3 5 ?w = Finished w' \<and>
         sent w' = replicate 10000 CHR ''x'' \<and>
         fflags w' 5 = Some 2050 \<and> interest w' (3, 5) = Some (EPOLLIN OR EPOLLET)"
    by blast
qed

section \<open>A failed write\<close>

text \<open>
  Claim C2 says that a write error makes \<open>handleClient\<close> abort: no further read on
  the descriptor, and an error outcome.  The code's \<open>if (written <= 0) break;\<close> leaves
  the inner loop only.  Here the first chunk is \<open>ping\<close>; the kernel takes 2 bytes and
  the next write fails.  The run then reads again, echoes the next chunk \<open>pong\<close> in
  full and returns on \<open>EAGAIN\<close> with the connection open: the peer gets \<open>pipong\<close>.
\<close>

theorem handleClient_reads_after_write_error:
  "trace (world_of (handleClient 3 5
     (serving_world\<lparr>reads := [RBytes ''ping'', RBytes ''pong'', RFail 11], writes := [2, - 1, 4]\<rparr>))) =
     [SysRead 5 (RBytes ''ping''), SysWrite 5 ''ping'' 2, SysWrite 5 ''ng'' (- 1),
      SysRead 5 (RBytes ''pong''), SysWrite 5 ''pong'' 4, SysRead 5 (RFail 11)] \<and>
   sent (world_of (handleClient 3 5
     (serving_world\<lparr>reads := [RBytes ''ping'', RBytes ''pong'', RFail 11], writes := [2, - 1, 4]\<rparr>))) =
     ''pipong'' \<and>
   fflags (world_of (handleClient 3 5
     (serving_world\<lparr>reads := [RBytes ''ping'', RBytes ''pong'', RFail 11], writes := [2, - 1, 4]\<rparr>))) 5 =
     Some 2050"
  by (simp add: run_simps)

section \<open>Draining the listener\<close>

lemma epollLoop_accept_AcceptFail:
  "accepts w = AcceptFail e # rest \<Longrightarrow>
   epollLoop_accept epoll_fd listen_fd w =
     Finished (w\<lparr>accepts := rest, errno := e,
                 trace := trace w @ SysAccept listen_fd (AcceptFail e) #
                   (if e = EAGAIN \<or> e = EWOULDBLOCK then [] else [Perror ''accept''])\<rparr>)"
  by (subst epollLoop_accept.simps) (simp add: sys_accept_def log_def perror_def)

lemma epollLoop_accept_AcceptOk:
  "accepts w = AcceptOk c # rest \<Longrightarrow>
   epollLoop_accept epoll_fd listen_fd w =
     epollLoop_accept epoll_fd listen_fd
       (w\<lparr>accepts := rest,
          fflags := (fflags w)(int c \<mapsto> 2050),
          interest := (if interest w (epoll_fd, int c) = None \<and> \<not> epoll_nomem w
                       then (interest w)((epoll_fd, int c) \<mapsto> EPOLLIN OR EPOLLET)
                       else interest w),
          errno := (if interest w (epoll_fd, int c) \<noteq> None then EEXIST
                    else if epoll_nomem w then ENOMEM else errno w),
          trace := trace w @
            [SysAccept listen_fd (AcceptOk c), SysFcntlGetfl (int c) 2,
             SysFcntlSetfl (int c) 2050 0,
             SysEpollCtl epoll_fd EPOLL_CTL_ADD (int c) (Some (EPOLLIN OR EPOLLET))]\<rparr>)"
  by (subst epollLoop_accept.simps)
     (simp add: sys_accept_def setNonBlocking_def sys_fcntl_getfl_def sys_fcntl_setfl_def
                sys_epoll_ctl_def log_def O_RDWR_def O_NONBLOCK_def)

lemma epollLoop_accept_drain_state:
  "accepts w = map AcceptOk cs @ AcceptFail e # rest \<Longrightarrow>
   \<exists>w'. epollLoop_accept epoll_fd listen_fd w = Finished w' \<and>
     accepts w' = rest \<and> waits w' = waits w \<and> tasks w' = tasks w \<and>
     epoll_nomem w' = epoll_nomem w \<and>
     trace w' = trace w @
       concat (map (\<lambda>c. [SysAccept listen_fd (AcceptOk c), SysFcntlGetfl (int c) 2,
                          SysFcntlSetfl (int c) 2050 0,
                          SysEpollCtl epoll_fd EPOLL_CTL_ADD (int c) (Some (EPOLLIN OR EPOLLET))]) cs) @
       SysAccept listen_fd (AcceptFail e) #
       (if e = EAGAIN \<or> e = EWOULDBLOCK then [] else [Perror ''accept'']) \<and>
     (\<forall>x. fflags w' x = (if x \<in> int ` set cs then Some 2050 else fflags w x)) \<and>
     (\<forall>x. interest w' (epoll_fd, x) =
        (if x \<in> int ` set cs \<and> interest w (epoll_fd, x) = None \<and> \<not> epoll_nomem w
         then Some (EPOLLIN OR EPOLLET) else interest w (epoll_fd, x)))"
proof (induction cs arbitrary: w)
  case Nil
  then show ?case by (simp add: epollLoop_accept_AcceptFail)
next
  case (Cons c cs)
  let ?m = "EPOLLIN OR EPOLLET"
  let ?calls = "[SysAccept listen_fd (AcceptOk c), SysFcntlGetfl (int c) 2,
             SysFcntlSetfl (int c) 2050 0,
             SysEpollCtl epoll_fd EPOLL_CTL_ADD (int c) (Some ?m)]"
  let ?w3 = "w\<lparr>accepts := map AcceptOk cs @ AcceptFail e # rest,
          fflags := (fflags w)(int c \<mapsto> 2050),
          interest := (if interest w (epoll_fd, int c) = None \<and> \<not> epoll_nomem w
                       then (interest w)((epoll_fd, int c) \<mapsto> ?m)
                       else interest w),
          errno := (if interest w (epoll_fd, int c) \<noteq> None then EEXIST
                    else if epoll_nomem w then ENOMEM else errno w),
          trace := trace w @ ?calls\<rparr>"
  from Cons.prems have eq: "epollLoop_accept epoll_fd listen_fd w = epollLoop_accept epoll_fd listen_fd ?w3"
    by (simp add: epollLoop_accept_AcceptOk)
  have "accepts ?w3 = map AcceptOk cs @ AcceptFail e # rest" by simp
  from Cons.IH [OF this] obtain w' where
    f: "epollLoop_accept epoll_fd listen_fd ?w3 = Finished w'" and
    a: "accepts w' = rest" "waits w' = waits ?w3" "tasks w' = tasks ?w3"
       "epoll_nomem w' = epoll_nomem ?w3" and
    t: "trace w' = trace ?w3 @
       concat (map (\<lambda>c. [SysAccept listen_fd (AcceptOk c), SysFcntlGetfl (int c) 2,
                          SysFcntlSetfl (int c) 2050 0,
                          SysEpollCtl epoll_fd EPOLL_CTL_ADD (int c) (Some ?m)]) cs) @
       SysAccept listen_fd (AcceptFail e) #
       (if e = EAGAIN \<or> e = EWOULDBLOCK then [] else [Perror ''accept''])" and
    fl: "\<forall>x. fflags w' x = (if x \<in> int ` set cs then Some 2050 else fflags ?w3 x)" and
    i: "\<forall>x. interest w' (epoll_fd, x) =
        (if x \<in> int ` set cs \<and> interest ?w3 (epoll_fd, x) = None \<and> \<not> epoll_nomem ?w3
         then Some ?m else interest ?w3 (epoll_fd, x))"
    by blast
  have fl': "\<forall>x. fflags w' x = (if x \<in> int ` set (c # cs) then Some 2050 else fflags w x)"
  proof
    fix x
    from fl have "fflags w' x = (if x \<in> int ` set cs then Some 2050 else fflags ?w3 x)"
      by (rule spec)
    then show "fflags w' x = (if x \<in> int ` set (c # cs) then Some 2050 else fflags w x)"
      by (cases "x = int c") simp_all
  qed
  have i': "\<forall>x. interest w' (epoll_fd, x) =
        (if x \<in> int ` set (c # cs) \<and> interest w (epoll_fd, x) = None \<and> \<not> epoll_nomem w
         then Some ?m else interest w (epoll_fd, x))"
  proof
    fix x
    from i have ix: "interest w' (epoll_fd, x) =
        (if x \<in> int ` set cs \<and> interest ?w3 (epoll_fd, x) = None \<and> \<not> epoll_nomem ?w3
         then Some ?m else interest ?w3 (epoll_fd, x))"
      by (rule spec)
    show "interest w' (epoll_fd, x) =
        (if x \<in> int ` set (c # cs) \<and> interest w (epoll_fd, x) = None \<and> \<not> epoll_nomem w
         then Some ?m else interest w (epoll_fd, x))"
    proof (cases "x = int c")
      case True
      then show ?thesis unfolding ix by simp
    next
      case False
      then show ?thesis unfolding ix by simp
    qed
  qed
  from t have t': "trace w' = trace w @
       concat (map (\<lambda>c. [SysAccept listen_fd (AcceptOk c), SysFcntlGetfl (int c) 2,
                          SysFcntlSetfl (int c) 2050 0,
                          SysEpollCtl epoll_fd EPOLL_CTL_ADD (int c) (Some ?m)]) (c # cs)) @
       SysAccept listen_fd (AcceptFail e) #
       (if e = EAGAIN \<or> e = EWOULDBLOCK then [] else [Perror ''accept''])"
    by simp
  from f a have "epollLoop_accept epoll_fd listen_fd w = Finished w' \<and>
     accepts w' = rest \<and> waits w' = waits w \<and> tasks w' = tasks w \<and>
     epoll_nomem w' = epoll_nomem w"
    by (simp add: eq)
  with t' fl' i' show ?case by (intro exI [of _ w']) simp
qed

lemma epollLoop_events_append:
  "epollLoop_events epoll_fd listen_fd (xs @ ys) w =
     (case epollLoop_events epoll_fd listen_fd xs w of
        OutOfScript w1 \<Rightarrow> OutOfScript w1
      | Finished w1 \<Rightarrow> epollLoop_events epoll_fd listen_fd ys w1)"
  by (induction xs arbitrary: w) (auto split: run.splits)

lemma epollLoop_events_connections:
  "listen_fd \<notin> set fds \<Longrightarrow>
   epollLoop_events epoll_fd listen_fd fds w =
     Finished (w\<lparr>tasks := tasks w @ map (Pair epoll_fd) fds,
                 trace := trace w @ map (Enqueue epoll_fd) fds\<rparr>)"
proof (induction fds arbitrary: w)
  case Nil
  show ?case by simp
next
  case (Cons fd fds)
  then have "fd \<noteq> listen_fd" "listen_fd \<notin> set fds" by auto
  with Cons.IH [of "enqueue epoll_fd fd w"] show ?case
    by (simp add: enqueue_def log_def)
qed

lemma epollLoop_WaitReady:
  "waits w = WaitReady fds # ws \<Longrightarrow> length fds \<le> nat MAX_EVENTS \<Longrightarrow>
   epollLoop epoll_fd listen_fd w =
     (case epollLoop_events epoll_fd listen_fd fds
             (w\<lparr>waits := ws, trace := trace w @ [SysEpollWait epoll_fd (WaitReady fds)]\<rparr>) of
        OutOfScript w2 \<Rightarrow> OutOfScript w2
      | Finished w2 \<Rightarrow> epollLoop epoll_fd listen_fd w2)"
  by (subst epollLoop.simps) (simp add: sys_epoll_wait_def log_def)

lemma epollLoop_no_answer:
  "waits w = [] \<Longrightarrow> epollLoop epoll_fd listen_fd w = OutOfScript w"
  by (subst epollLoop.simps) (simp add: sys_epoll_wait_def)

lemma epollLoop_accept_trace:
  "\<exists>more. trace (world_of (epollLoop_accept epoll_fd listen_fd w)) = trace w @ more"
proof (induction "accepts w" arbitrary: w)
  case Nil
  then have "epollLoop_accept epoll_fd listen_fd w = OutOfScript w"
    by (subst epollLoop_accept.simps) (simp add: sys_accept_def)
  then show ?case by simp
next
  case (Cons a as)
  show ?case
  proof (cases a)
    case (AcceptFail e)
    with Cons.hyps(2) have "accepts w = AcceptFail e # as" by simp
    then show ?thesis by (simp add: epollLoop_accept_AcceptFail)
  next
    case (AcceptOk c)
    with Cons.hyps(2) have "accepts w = AcceptOk c # as" by simp
    note eq = epollLoop_accept_AcceptOk [OF this, of epoll_fd listen_fd]
    let ?w3 = "w\<lparr>accepts := as,
          fflags := (fflags w)(int c \<mapsto> 2050),
          interest := (if interest w (epoll_fd, int c) = None \<and> \<not> epoll_nomem w
                       then (interest w)((epoll_fd, int c) \<mapsto> EPOLLIN OR EPOLLET)
                       else interest w),
          errno := (if interest w (epoll_fd, int c) \<noteq> None then EEXIST
                    else if epoll_nomem w then ENOMEM else errno w),
          trace := trace w @
            [SysAccept listen_fd (AcceptOk c), SysFcntlGetfl (int c) 2,
             SysFcntlSetfl (int c) 2050 0,
             SysEpollCtl epoll_fd EPOLL_CTL_ADD (int c) (Some (EPOLLIN OR EPOLLET))]\<rparr>"
    have "as = accepts ?w3" by simp
    from Cons.hyps(1) [OF this] obtain more where
      "trace (world_of (epollLoop_accept epoll_fd listen_fd ?w3)) = trace ?w3 @ more" by blast
    then have "trace (world_of (epollLoop_accept epoll_fd listen_fd w)) =
      trace w @ [SysAccept listen_fd (AcceptOk c), SysFcntlGetfl (int c) 2,
             SysFcntlSetfl (int c) 2050 0,
             SysEpollCtl epoll_fd EPOLL_CTL_ADD (int c) (Some (EPOLLIN OR EPOLLET))] @ more"
      by (simp add: eq)
    then show ?thesis by blast
  qed
qed

lemma epollLoop_events_trace:
  "\<exists>more. trace (world_of (epollLoop_events epoll_fd listen_fd fds w)) = trace w @ more"
proof (induction fds arbitrary: w)
  case Nil
  show ?case by simp
next
  case (Cons fd fds)
  show ?case
  proof (cases "fd = listen_fd")
    case False
    with Cons.IH [of "enqueue epoll_fd fd w"] show ?thesis
      by (auto simp: enqueue_def log_def)
  next
    case True
    from epollLoop_accept_trace [of epoll_fd listen_fd w] obtain m1 where
      m1: "trace (world_of (epollLoop_accept epoll_fd listen_fd w)) = trace w @ m1" by blast
    show ?thesis
    proof (cases "epollLoop_accept epoll_fd listen_fd w")
      case (OutOfScript w1)
      with True m1 show ?thesis by simp
    next
      case (Finished w1)
      with Cons.IH [of w1] True m1 show ?thesis by auto
    qed
  qed
qed

lemma epollLoop_trace:
  "\<exists>more. trace (world_of (epollLoop epoll_fd listen_fd w)) = trace w @ more"
proof (induction epoll_fd listen_fd w rule: epollLoop.induct)
  case (1 epoll_fd listen_fd w)
  show ?case
  proof (cases "sys_epoll_wait epoll_fd MAX_EVENTS w")
    case None
    then have "epollLoop epoll_fd listen_fd w = OutOfScript w"
      by (simp add: epollLoop.simps)
    then show ?thesis by simp
  next
    case (Some p)
    obtain nfds events w1 where p: "p = ((nfds, events), w1)" by (cases p) auto
    from Some p have sw: "sys_epoll_wait epoll_fd MAX_EVENTS w = Some ((nfds, events), w1)"
      by simp
    then obtain m0 where t1: "trace w1 = trace w @ m0"
      by (auto simp: sys_epoll_wait_def log_def split: list.splits wait_result.splits)
    show ?thesis
    proof (cases "nfds < 0")
      case True
      show ?thesis
      proof (cases "errno w1 = EINTR")
        case e: True
        with sw True have eq: "epollLoop epoll_fd listen_fd w = epollLoop epoll_fd listen_fd w1"
          by (simp add: epollLoop.simps)
        from "1.IH"(1) [OF Some p [symmetric] refl True e] t1 show ?thesis
          by (auto simp: eq)
      next
        case e: False
        with sw True have "epollLoop epoll_fd listen_fd w = Finished (perror ''epoll_wait'' w1)"
          by (simp add: epollLoop.simps)
        with t1 show ?thesis by (simp add: perror_def log_def)
      qed
    next
      case False
      let ?evs = "take (nat nfds) events"
      from epollLoop_events_trace [of epoll_fd listen_fd ?evs w1] obtain m1 where
        m1: "trace (world_of (epollLoop_events epoll_fd listen_fd ?evs w1)) = trace w1 @ m1"
        by blast
      show ?thesis
      proof (cases "epollLoop_events epoll_fd listen_fd ?evs w1")
        case (OutOfScript w2)
        with sw False have "epollLoop epoll_fd listen_fd w = OutOfScript w2"
          by (simp add: epollLoop.simps)
        with OutOfScript m1 t1 show ?thesis by simp
      next
        case (Finished w2)
        with sw False have eq: "epollLoop epoll_fd listen_fd w = epollLoop epoll_fd listen_fd w2"
          by (simp add: epollLoop.simps)
        from "1.IH"(2) [OF Some p [symmetric] refl False Finished] obtain m2 where
          "trace (world_of (epollLoop epoll_fd listen_fd w2)) = trace w2 @ m2" by blast
        with Finished m1 t1 show ?thesis by (simp add: eq)
      qed
    qed
  qed
qed

text \<open>
  Claim C6, as the claim states it, fails: an accepted connection need not end up
  registered.  Here the kernel has no room for a registration.  The reactor accepts
  connection 6, sets it non-blocking and calls \<open>epoll_ctl\<close> for it; the call fails, its
  result is not looked at, and the connection stays open and in no interest list.
\<close>

theorem refused_registration_counterexample:
  "SysAccept 4 (AcceptOk 6)
     \<in> set (trace (world_of (epollLoop 3 4
         (serving_world\<lparr>epoll_nomem := True, waits := [WaitReady [4]],
                        accepts := [AcceptOk 6, AcceptFail 11]\<rparr>)))) \<and>
   SysEpollCtl 3 EPOLL_CTL_ADD 6 (Some (EPOLLIN OR EPOLLET))
     \<in> set (trace (world_of (epollLoop 3 4
         (serving_world\<lparr>epoll_nomem := True, waits := [WaitReady [4]],
                        accepts := [AcceptOk 6, AcceptFail 11]\<rparr>)))) \<and>
   fflags (world_of (epollLoop 3 4
         (serving_world\<lparr>epoll_nomem := True, waits := [WaitReady [4]],
                        accepts := [AcceptOk 6, AcceptFail 11]\<rparr>))) 6 = Some 2050 \<and>
   interest (world_of (epollLoop 3 4
         (serving_world\<lparr>epoll_nomem := True, waits := [WaitReady [4]],
                        accepts := [AcceptOk 6, AcceptFail 11]\<rparr>))) (3, 6) = None"
  by (simp add: loop_simps)

text \<open>
  Claim C6, amended.  \<open>epoll_wait\<close> reports a batch of events with the listener among
  them (once, as \<open>epoll_wait\<close> reports a descriptor), the pending connections are \<open>cs\<close>,
  and the accept after the last of them fails with \<open>e\<close>.  Then \<open>epollLoop\<close>, having
  submitted the tasks for the events before the listener's, accepts every one of \<open>cs\<close>,
  in order; for each it calls \<open>setNonBlocking\<close>, which finds the flags \<open>O_RDWR\<close> and sets
  2050, that is \<open>O_RDWR\<close> with \<open>O_NONBLOCK\<close>, and then
  \<open>epoll_ctl(epoll_fd, EPOLL_CTL_ADD, client_fd, &client_ev)\<close> with the events
  \<open>EPOLLIN | EPOLLET\<close>, whose result it does not look at.  The failed accept is the
  last one (the later answers \<open>rest\<close> are left); \<open>perror("accept")\<close> is printed unless
  \<open>e\<close> is \<open>EAGAIN\<close>/\<open>EWOULDBLOCK\<close>.  In both cases the loop submits the tasks for the
  remaining events and goes back to \<open>epoll_wait\<close>: the run of \<open>epollLoop\<close> is the run from
  the world \<open>w'\<close> reached there, its trace begins with these calls, and when no further
  report comes it is waiting in \<open>epoll_wait\<close>.  Every accepted descriptor is then open
  and non-blocking; it is registered with \<open>EPOLLIN | EPOLLET\<close> when the kernel took the
  registration, and when the kernel refused it (no room, or a registration already there)
  the interest list is as it was.
\<close>

theorem epollLoop_listener_ready:
  assumes wt: "waits w = WaitReady (pre @ listen_fd # post) # ws"
    and len: "length (pre @ listen_fd # post) \<le> nat MAX_EVENTS"
    and pre: "listen_fd \<notin> set pre" and post: "listen_fd \<notin> set post"
    and acc: "accepts w = map AcceptOk cs @ AcceptFail e # rest"
  shows "\<exists>w' more.
     epollLoop epoll_fd listen_fd w = epollLoop epoll_fd listen_fd w' \<and>
     trace (world_of (epollLoop epoll_fd listen_fd w)) = trace w' @ more \<and>
     (ws = [] \<longrightarrow> epollLoop epoll_fd listen_fd w = OutOfScript w') \<and>
     waits w' = ws \<and> accepts w' = rest \<and>
     trace w' = trace w @
       SysEpollWait epoll_fd (WaitReady (pre @ listen_fd # post)) #
       map (Enqueue epoll_fd) pre @
       concat (map (\<lambda>c. [SysAccept listen_fd (AcceptOk c), SysFcntlGetfl (int c) 2,
                          SysFcntlSetfl (int c) 2050 0,
                          SysEpollCtl epoll_fd EPOLL_CTL_ADD (int c) (Some (EPOLLIN OR EPOLLET))]) cs) @
       SysAccept listen_fd (AcceptFail e) #
       (if e = EAGAIN \<or> e = EWOULDBLOCK then [] else [Perror ''accept'']) @
       map (Enqueue epoll_fd) post \<and>
     tasks w' = tasks w @ map (Pair epoll_fd) (pre @ post) \<and>
     (\<forall>c\<in>set cs.
        fflags w' (int c) = Some 2050 \<and>
        interest w' (epoll_fd, int c) =
          (if interest w (epoll_fd, int c) = None \<and> \<not> epoll_nomem w
           then Some (EPOLLIN OR EPOLLET) else interest w (epoll_fd, int c)))"
proof -
  let ?fds = "pre @ listen_fd # post"
  let ?w0 = "w\<lparr>waits := ws, trace := trace w @ [SysEpollWait epoll_fd (WaitReady ?fds)]\<rparr>"
  let ?w1 = "?w0\<lparr>tasks := tasks ?w0 @ map (Pair epoll_fd) pre,
                 trace := trace ?w0 @ map (Enqueue epoll_fd) pre\<rparr>"
  have e1: "epollLoop_events epoll_fd listen_fd pre ?w0 = Finished ?w1"
    using pre by (rule epollLoop_events_connections)
  from acc have "accepts ?w1 = map AcceptOk cs @ AcceptFail e # rest" by simp
  from epollLoop_accept_drain_state [OF this, of epoll_fd listen_fd] obtain w2 where
    f: "epollLoop_accept epoll_fd listen_fd ?w1 = Finished w2" and
    a: "accepts w2 = rest" "waits w2 = waits ?w1" "tasks w2 = tasks ?w1" and
    t: "trace w2 = trace ?w1 @
       concat (map (\<lambda>c. [SysAccept listen_fd (AcceptOk c), SysFcntlGetfl (int c) 2,
                          SysFcntlSetfl (int c) 2050 0,
                          SysEpollCtl epoll_fd EPOLL_CTL_ADD (int c) (Some (EPOLLIN OR EPOLLET))]) cs) @
       SysAccept listen_fd (AcceptFail e) #
       (if e = EAGAIN \<or> e = EWOULDBLOCK then [] else [Perror ''accept''])" and
    fl: "\<forall>x. fflags w2 x = (if x \<in> int ` set cs then Some 2050 else fflags ?w1 x)" and
    i: "\<forall>x. interest w2 (epoll_fd, x) =
        (if x \<in> int ` set cs \<and> interest ?w1 (epoll_fd, x) = None \<and> \<not> epoll_nomem ?w1
         then Some (EPOLLIN OR EPOLLET) else interest ?w1 (epoll_fd, x))"
    by blast
  let ?w3 = "w2\<lparr>tasks := tasks w2 @ map (Pair epoll_fd) post,
                 trace := trace w2 @ map (Enqueue epoll_fd) post\<rparr>"
  have e3: "epollLoop_events epoll_fd listen_fd post w2 = Finished ?w3"
    using post by (rule epollLoop_events_connections)
  have ev: "epollLoop_events epoll_fd listen_fd ?fds ?w0 = Finished ?w3"
    using e1 f e3 by (simp add: epollLoop_events_append)
  from epollLoop_WaitReady [OF wt len, of epoll_fd listen_fd] ev have
    eq: "epollLoop epoll_fd listen_fd w = epollLoop epoll_fd listen_fd ?w3"
    by simp
  from epollLoop_trace [of epoll_fd listen_fd ?w3] obtain more where
    more: "trace (world_of (epollLoop epoll_fd listen_fd w)) = trace ?w3 @ more"
    by (auto simp: eq)
  have w3: "waits ?w3 = ws" "accepts ?w3 = rest" using a by simp_all
  have out: "ws = [] \<longrightarrow> epollLoop epoll_fd listen_fd w = OutOfScript ?w3"
    using w3 by (auto simp: eq epollLoop_no_answer)
  have tr: "trace ?w3 = trace w @
       SysEpollWait epoll_fd (WaitReady ?fds) #
       map (Enqueue epoll_fd) pre @
       concat (map (\<lambda>c. [SysAccept listen_fd (AcceptOk c), SysFcntlGetfl (int c) 2,
                          SysFcntlSetfl (int c) 2050 0,
                          SysEpollCtl epoll_fd EPOLL_CTL_ADD (int c) (Some (EPOLLIN OR EPOLLET))]) cs) @
       SysAccept listen_fd (AcceptFail e) #
       (if e = EAGAIN \<or> e = EWOULDBLOCK then [] else [Perror ''accept'']) @
       map (Enqueue epoll_fd) post"
    using t by simp
  have tk: "tasks ?w3 = tasks w @ map (Pair epoll_fd) (pre @ post)" using a by simp
  have st: "\<forall>c\<in>set cs.
        fflags ?w3 (int c) = Some 2050 \<and>
        interest ?w3 (epoll_fd, int c) =
          (if interest w (epoll_fd, int c) = None \<and> \<not> epoll_nomem w
           then Some (EPOLLIN OR EPOLLET) else interest w (epoll_fd, int c))"
  proof
    fix c assume "c \<in> set cs"
    then have m: "int c \<in> int ` set cs" by simp
    from fl have "fflags w2 (int c) = (if int c \<in> int ` set cs then Some 2050 else fflags ?w1 (int c))"
      by (rule spec)
    with m have a1: "fflags ?w3 (int c) = Some 2050" by simp
    from i have "interest w2 (epoll_fd, int c) =
        (if int c \<in> int ` set cs \<and> interest ?w1 (epoll_fd, int c) = None \<and> \<not> epoll_nomem ?w1
         then Some (EPOLLIN OR EPOLLET) else interest ?w1 (epoll_fd, int c))"
      by (rule spec)
    with m have a2: "interest ?w3 (epoll_fd, int c) =
          (if interest w (epoll_fd, int c) = None \<and> \<not> epoll_nomem w
           then Some (EPOLLIN OR EPOLLET) else interest w (epoll_fd, int c))"
      by simp
    from a1 a2 show "fflags ?w3 (int c) = Some 2050 \<and>
        interest ?w3 (epoll_fd, int c) =
          (if interest w (epoll_fd, int c) = None \<and> \<not> epoll_nomem w
           then Some (EPOLLIN OR EPOLLET) else interest w (epoll_fd, int c))" ..
  qed
  show ?thesis
    by (intro exI [of _ ?w3] exI [of _ more] conjI) (fact eq more out w3 tr tk st)+
qed

theorem epollLoop_listener_ready_witness:
  "\<exists>w'. epollLoop 3 4
          (serving_world\<lparr>waits := [WaitReady [5, 4]],
                         accepts := [AcceptOk 6, AcceptOk 7, AcceptFail 24, AcceptOk 8]\<rparr>) =
          OutOfScript w' \<and>
     accepts w' = [AcceptOk 8] \<and>
     trace w' =
       [SysEpollWait 3 (WaitReady [5, 4]), Enqueue 3 5,
        SysAccept 4 (AcceptOk 6), SysFcntlGetfl 6 2, SysFcntlSetfl 6 2050 0,
        SysEpollCtl 3 EPOLL_CTL_ADD 6 (Some (EPOLLIN OR EPOLLET)),
        SysAccept 4 (AcceptOk 7), SysFcntlGetfl 7 2, SysFcntlSetfl 7 2050 0,
        SysEpollCtl 3 EPOLL_CTL_ADD 7 (Some (EPOLLIN OR EPOLLET)),
        SysAccept 4 (AcceptFail 24), Perror ''accept''] \<and>
     tasks w' = [(3, 5)] \<and>
     fflags w' 6 = Some 2050 \<and> fflags w' 7 = Some 2050 \<and>
     interest w' (3, 6) = Some (EPOLLIN OR EPOLLET) \<and>
     interest w' (3, 7) = Some (EPOLLIN OR EPOLLET)"
proof -
  let ?w = "serving_world\<lparr>waits := [WaitReady [5, 4]],
                         accepts := [AcceptOk 6, AcceptOk 7, AcceptFail 24, AcceptOk 8]\<rparr>"
  have h1: "waits ?w = WaitReady ([5] @ 4 # []) # []" by simp
  have h2: "length ([5] @ 4 # [] :: int list) \<le> nat MAX_EVENTS" by (simp add: MAX_EVENTS_def)
  have h3: "(4 :: int) \<notin> set [5]" by simp
  have h4: "(4 :: int) \<notin> set []" by simp
  have h5: "accepts ?w = map AcceptOk [6, 7] @ AcceptFail 24 # [AcceptOk 8]" by simp
  from epollLoop_listener_ready [OF h1 h2 h3 h4 h5, of 3] obtain w' where
    "epollLoop 3 4 ?w = OutOfScript w'" "accepts w' = [AcceptOk 8]"
    "trace w' = trace ?w @
       SysEpollWait 3 (WaitReady ([5] @ 4 # [])) #
       map (Enqueue 3) [5] @
       concat (map (\<lambda>c. [SysAccept 4 (AcceptOk c), SysFcntlGetfl (int c) 2,
                          SysFcntlSetfl (int c) 2050 0,
                          SysEpollCtl 3 EPOLL_CTL_ADD (int c) (Some (EPOLLIN OR EPOLLET))]) [6, 7]) @
       SysAccept 4 (AcceptFail 24) #
       (if 24 = EAGAIN \<or> 24 = EWOULDBLOCK then [] else [Perror ''accept'']) @
       map (Enqueue 3) []"
    "tasks w' = tasks ?w @ map (Pair 3) ([5] @ [])"
    "\<forall>c\<in>set [6, 7 :: nat].
        fflags w' (int c) = Some 2050 \<and>
        interest w' (3, int c) =
          (if interest ?w (3, int c) = None \<and> \<not> epoll_nomem ?w
           then Some (EPOLLIN OR EPOLLET) else interest ?w (3, int c))"
    by blast
  then have "epollLoop 3 4 ?w = OutOfScript w' \<and>
     accepts w' = [AcceptOk 8] \<and>
     trace w' =
       [SysEpollWait 3 (WaitReady [5, 4]), Enqueue 3 5,
        SysAccept 4 (AcceptOk 6), SysFcntlGetfl 6 2, SysFcntlSetfl 6 2050 0,
        SysEpollCtl 3 EPOLL_CTL_ADD 6 (Some (EPOLLIN OR EPOLLET)),
        SysAccept 4 (AcceptOk 7), SysFcntlGetfl 7 2, SysFcntlSetfl 7 2050 0,
        SysEpollCtl 3 EPOLL_CTL_ADD 7 (Some (EPOLLIN OR EPOLLET)),
        SysAccept 4 (AcceptFail 24), Perror ''accept''] \<and>
     tasks w' = [(3, 5)] \<and>
     fflags w' 6 = Some 2050 \<and> fflags w' 7 = Some 2050 \<and>
     interest w' (3, 6) = Some (EPOLLIN OR EPOLLET) \<and>
     interest w' (3, 7) = Some (EPOLLIN OR EPOLLET)"
    by (simp add: serving_world_def fresh_world_def EAGAIN_def EWOULDBLOCK_def)
  then show ?thesis by blast
qed

section \<open>What the reactor hands to the pool\<close>

lemma epollLoop_accept_tasks:
  "tasks (world_of (epollLoop_accept epoll_fd listen_fd w)) = tasks w"
proof (induction "accepts w" arbitrary: w)
  case Nil
  then have "epollLoop_accept epoll_fd listen_fd w = OutOfScript w"
    by (subst epollLoop_accept.simps) (simp add: sys_accept_def)
  then show ?case by simp
next
  case (Cons a as)
  show ?case
  proof (cases a)
    case (AcceptFail e)
    with Cons.hyps(2) have "accepts w = AcceptFail e # as" by simp
    then show ?thesis by (simp add: epollLoop_accept_AcceptFail)
  next
    case (AcceptOk c)
    with Cons.hyps(2) have "accepts w = AcceptOk c # as" by simp
    from epollLoop_accept_AcceptOk [OF this, of epoll_fd listen_fd] Cons.hyps(1) show ?thesis
      by simp
  qed
qed

lemma epollLoop_events_tasks:
  "\<exists>new. tasks (world_of (epollLoop_events epoll_fd listen_fd fds w)) = tasks w @ new \<and>
     (\<forall>t\<in>set new. fst t = epoll_fd \<and> snd t \<noteq> listen_fd \<and> snd t \<in> set fds) \<and>
     ((\<exists>w'. epollLoop_events epoll_fd listen_fd fds w = Finished w') \<longrightarrow>
        new = map (Pair epoll_fd) (filter (\<lambda>fd. fd \<noteq> listen_fd) fds))"
proof (induction fds arbitrary: w)
  case Nil
  show ?case by simp
next
  case (Cons fd fds)
  show ?case
  proof (cases "fd = listen_fd")
    case False
    let ?w1 = "enqueue epoll_fd fd w"
    from False have eq: "epollLoop_events epoll_fd listen_fd (fd # fds) w =
      epollLoop_events epoll_fd listen_fd fds ?w1" by simp
    from Cons.IH [of ?w1] obtain new where
      n: "tasks (world_of (epollLoop_events epoll_fd listen_fd fds ?w1)) = tasks ?w1 @ new"
         "\<forall>t\<in>set new. fst t = epoll_fd \<and> snd t \<noteq> listen_fd \<and> snd t \<in> set fds"
         "(\<exists>w'. epollLoop_events epoll_fd listen_fd fds ?w1 = Finished w') \<longrightarrow>
            new = map (Pair epoll_fd) (filter (\<lambda>fd. fd \<noteq> listen_fd) fds)"
      by blast
    with False show ?thesis
      by (intro exI [of _ "(epoll_fd, fd) # new"]) (auto simp: eq enqueue_def log_def)
  next
    case True
    show ?thesis
    proof (cases "epollLoop_accept epoll_fd listen_fd w")
      case (OutOfScript w1)
      with True have "epollLoop_events epoll_fd listen_fd (fd # fds) w = OutOfScript w1" by simp
      moreover from OutOfScript epollLoop_accept_tasks [of epoll_fd listen_fd w]
      have "tasks w1 = tasks w" by simp
      ultimately show ?thesis by (intro exI [of _ "[]"]) simp
    next
      case (Finished w1)
      with True have eq: "epollLoop_events epoll_fd listen_fd (fd # fds) w =
        epollLoop_events epoll_fd listen_fd fds w1" by simp
      from Finished epollLoop_accept_tasks [of epoll_fd listen_fd w]
      have t: "tasks w1 = tasks w" by simp
      from Cons.IH [of w1] obtain new where
        n: "tasks (world_of (epollLoop_events epoll_fd listen_fd fds w1)) = tasks w1 @ new"
           "\<forall>t\<in>set new. fst t = epoll_fd \<and> snd t \<noteq> listen_fd \<and> snd t \<in> set fds"
           "(\<exists>w'. epollLoop_events epoll_fd listen_fd fds w1 = Finished w') \<longrightarrow>
              new = map (Pair epoll_fd) (filter (\<lambda>fd. fd \<noteq> listen_fd) fds)"
        by blast
      with True t show ?thesis
        unfolding eq by (intro exI [of _ new]) auto
    qed
  qed
qed

lemma sys_epoll_wait_Some:
  "sys_epoll_wait epfd m w = Some ((nfds, events), w1) \<Longrightarrow>
   tasks w1 = tasks w \<and> set events \<subseteq> (\<Union>fds \<in> {fds. WaitReady fds \<in> set (waits w)}. set fds)"
  by (auto simp: sys_epoll_wait_def log_def split: list.splits wait_result.splits
           dest: in_set_takeD)

text \<open>
  Claim C9.  However the waits and accepts are answered and wherever the run stops, the
  tasks \<open>epollLoop\<close> has added to the pool's queue all carry the loop's \<open>epoll_fd\<close> and a
  descriptor other than \<open>listen_fd\<close>.  (By \<open>epollLoop_events_tasks\<close>, a batch of events
  adds one task per event that is not the listener's, in order; the listener's events
  run the accept loop in place, which adds none.)
\<close>

theorem epollLoop_tasks_are_connections:
  "\<exists>new. tasks (world_of (epollLoop epoll_fd listen_fd w)) = tasks w @ new \<and>
     (\<forall>t\<in>set new. fst t = epoll_fd \<and> snd t \<noteq> listen_fd)"
proof (induction epoll_fd listen_fd w rule: epollLoop.induct)
  case (1 epoll_fd listen_fd w)
  show ?case
  proof (cases "sys_epoll_wait epoll_fd MAX_EVENTS w")
    case None
    then have "epollLoop epoll_fd listen_fd w = OutOfScript w"
      by (simp add: epollLoop.simps)
    then show ?thesis by (intro exI [of _ "[]"]) simp
  next
    case (Some p)
    obtain nfds events w1 where p: "p = ((nfds, events), w1)" by (cases p) auto
    from Some p have sw: "sys_epoll_wait epoll_fd MAX_EVENTS w = Some ((nfds, events), w1)"
      by simp
    from sys_epoll_wait_Some [OF sw] have t1: "tasks w1 = tasks w" by simp
    show ?thesis
    proof (cases "nfds < 0")
      case True
      show ?thesis
      proof (cases "errno w1 = EINTR")
        case e: True
        with sw True have eq: "epollLoop epoll_fd listen_fd w = epollLoop epoll_fd listen_fd w1"
          by (simp add: epollLoop.simps)
        from "1.IH"(1) [OF Some p [symmetric] refl True e] t1 show ?thesis
          by (simp add: eq)
      next
        case e: False
        with sw True have "epollLoop epoll_fd listen_fd w = Finished (perror ''epoll_wait'' w1)"
          by (simp add: epollLoop.simps)
        with t1 show ?thesis
          by (intro exI [of _ "[]"]) (simp add: perror_def log_def)
      qed
    next
      case False
      let ?evs = "take (nat nfds) events"
      from epollLoop_events_tasks [of epoll_fd listen_fd ?evs w1] obtain new where
        n: "tasks (world_of (epollLoop_events epoll_fd listen_fd ?evs w1)) = tasks w1 @ new"
           "\<forall>t\<in>set new. fst t = epoll_fd \<and> snd t \<noteq> listen_fd \<and> snd t \<in> set ?evs"
        by blast
      show ?thesis
      proof (cases "epollLoop_events epoll_fd listen_fd ?evs w1")
        case (OutOfScript w2)
        with sw False have "epollLoop epoll_fd listen_fd w = OutOfScript w2"
          by (simp add: epollLoop.simps)
        with OutOfScript n t1 show ?thesis
          by (intro exI [of _ new]) simp
      next
        case (Finished w2)
        with sw False have eq: "epollLoop epoll_fd listen_fd w = epollLoop epoll_fd listen_fd w2"
          by (simp add: epollLoop.simps)
        from "1.IH"(2) [OF Some p [symmetric] refl False Finished] obtain new2 where
          n2: "tasks (world_of (epollLoop epoll_fd listen_fd w2)) = tasks w2 @ new2"
              "\<forall>t\<in>set new2. fst t = epoll_fd \<and> snd t \<noteq> listen_fd"
          by blast
        from Finished n t1 have "tasks w2 = tasks w @ new" by simp
        with n n2 show ?thesis
          by (intro exI [of _ "new @ new2"]) (auto simp: eq)
      qed
    qed
  qed
qed

theorem epollLoop_tasks_are_connections_witness:
  "tasks (world_of (epollLoop 3 4
     (serving_world\<lparr>waits := [WaitReady [4, 5, 4], WaitReady [5]],
                    accepts := [AcceptOk 6, AcceptFail 11, AcceptFail 11]\<rparr>))) = [(3, 5), (3, 5)] \<and>
   (\<exists>new. tasks (world_of (epollLoop 3 4
     (serving_world\<lparr>waits := [WaitReady [4, 5, 4], WaitReady [5]],
                    accepts := [AcceptOk 6, AcceptFail 11, AcceptFail 11]\<rparr>))) =
       tasks (serving_world\<lparr>waits := [WaitReady [4, 5, 4], WaitReady [5]],
                            accepts := [AcceptOk 6, AcceptFail 11, AcceptFail 11]\<rparr>) @ new \<and>
     (\<forall>t\<in>set new. fst t = 3 \<and> snd t \<noteq> 4))"
proof -
  let ?w = "serving_world\<lparr>waits := [WaitReady [4, 5, 4], WaitReady [5]],
                    accepts := [AcceptOk 6, AcceptFail 11, AcceptFail 11]\<rparr>"
  have e: "tasks (world_of (epollLoop 3 4 ?w)) = [(3, 5), (3, 5)]"
    by (simp add: loop_simps)
  from epollLoop_tasks_are_connections [of 3 4 ?w] e show ?thesis by blast
qed

end
